theory Spec2Isabelle
  imports Complex_Main "HOL-Library.AList" "HOL-Library.While_Combinator"
begin

section \<open>Data model (graph.hpp)\<close>

text \<open>
  A \<open>vertex_iterator\<close> wraps an iterator of \<open>vertex_map_\<close>, the map from the 64-bit
  identity to the vertex. The model names a vertex by that identity: an iterator is the
  key it points at, \<open>vertex_end()\<close> is a failed lookup, and two iterators are equal
  exactly when their keys are. Keys are only ever compared for equality, so they are
  plain integers.
\<close>

type_synonym vertex_iterator = int

text \<open>
  \<open>Transition\<close> defaults to \<open>double\<close>, and the open list keeps its priorities in
  \<open>double\<close>. A cost of the model is the real number that a finite double stands for,
  and every sum the search forms is rounded the way IEEE 754 binary64 rounds it (to the
  nearest double, ties to the even significand, with gradual underflow): \<open>binade\<close> is
  the exponent of a value, \<open>ulp\<close> the distance between the doubles around it,
  \<open>rne\<close> the nearest integer (ties to even), \<open>rnd\<close> the nearest double, and
  \<open>dadd\<close> the \<open>+\<close> of two doubles. The model has no infinity and no NaN: it is
  the arithmetic of the code as long as no sum exceeds the largest double.
\<close>

type_synonym Transition = real

definition binade :: "real \<Rightarrow> int" where
  "binade x = max \<lfloor>log 2 \<bar>x\<bar>\<rfloor> (- 1022)"

definition ulp :: "real \<Rightarrow> real" where
  "ulp x = 2 powr (of_int (binade x) - 52)"

definition rne :: "real \<Rightarrow> int" where
  "rne y = (if y - of_int \<lfloor>y\<rfloor> < 1 / 2 then \<lfloor>y\<rfloor>
            else if 1 / 2 < y - of_int \<lfloor>y\<rfloor> then \<lfloor>y\<rfloor> + 1
            else if even \<lfloor>y\<rfloor> then \<lfloor>y\<rfloor> else \<lfloor>y\<rfloor> + 1)"

definition rnd :: "real \<Rightarrow> real" where
  "rnd x = of_int (rne (x / ulp x)) * ulp x"

definition dadd :: "Transition \<Rightarrow> Transition \<Rightarrow> Transition" where
  "dadd a b = rnd (a + b)"

text \<open>struct Edge: \<open>src_\<close>, \<open>dst_\<close>, \<open>cost_\<close>.\<close>

record Edge =
  src :: vertex_iterator
  dst :: vertex_iterator
  cost :: Transition

text \<open>
  struct Vertex: the state, its identity, the outgoing edges \<open>edges_to_\<close>, the
  predecessors \<open>vertices_from_\<close> and the fields the search writes. A default-constructed
  \<open>search_parent_\<close> is \<open>None\<close>.
\<close>

record 'st Vertex =
  state :: 'st
  vertex_id :: int
  edges_to :: "Edge list"
  vertices_from :: "vertex_iterator list"
  is_checked :: bool
  is_in_openlist :: bool
  f_cost :: Transition
  g_cost :: Transition
  h_cost :: Transition
  search_parent :: "vertex_iterator option"

text \<open>
  \<open>vertex_map_\<close>: an association list in the map's iteration order; a lookup finds the
  first entry of a key.
\<close>

type_synonym 'st Graph = "(int \<times> 'st Vertex) list"

datatype error = InvalidIterator

definition FindVertex :: "'st Graph \<Rightarrow> int \<Rightarrow> 'st Vertex option" where
  "FindVertex g i = map_of g i"

definition GetGraphVertexNumber :: "'st Graph \<Rightarrow> nat" where
  "GetGraphVertexNumber g = length g"

section \<open>Graph operations\<close>

text \<open>
  The constructor \<open>Vertex(State s, int64_t id) : state_(s), vertex_id_(id) {}\<close> of
  graph.hpp: the edge and predecessor lists start empty and both flags have the
  initialiser \<open>false\<close>. The three costs have no initialiser in the source (their
  value is indeterminate until a search writes them); the model starts them at 0.
\<close>

definition new_Vertex :: "'st \<Rightarrow> int \<Rightarrow> 'st Vertex" where
  "new_Vertex s i =
     \<lparr>state = s, vertex_id = i, edges_to = [], vertices_from = [],
      is_checked = False, is_in_openlist = False,
      f_cost = 0, g_cost = 0, h_cost = 0, search_parent = None\<rparr>"

text \<open>
  Modelled from the spec: \<open>Vertex::ClearVertexSearchInfo\<close> and the reset of every
  vertex (vertex_impl.hpp and graph_impl.hpp are not among the sources). The spec:
  "clears expanded/frontier flags and cost fields on every vertex".
\<close>

definition ClearVertexSearchInfo :: "'st Vertex \<Rightarrow> 'st Vertex" where
  "ClearVertexSearchInfo v =
     v\<lparr>is_checked := False, is_in_openlist := False, f_cost := 0, g_cost := 0, h_cost := 0\<rparr>"

definition ResetAllVertices :: "'st Graph \<Rightarrow> 'st Graph" where
  "ResetAllVertices g = map (\<lambda>(k, v). (k, ClearVertexSearchInfo v)) g"

text \<open>
  Modelled from the spec: \<open>Graph::ObtainVertexFromVertexMap\<close> and \<open>Graph::AddVertex\<close>
  (graph_impl.hpp is not among the sources). The spec: "get-or-create. If a vertex with
  identity(state) already exists, returns a reference to it unchanged (state is NOT
  overwritten); otherwise allocates a new Vertex owned by the Graph". The indexer
  \<open>GetStateIndex\<close> is the parameter \<open>idx\<close>.
\<close>

definition ObtainVertexFromVertexMap ::
  "('st \<Rightarrow> int) \<Rightarrow> 'st \<Rightarrow> 'st Graph \<Rightarrow> vertex_iterator \<times> 'st Graph" where
  "ObtainVertexFromVertexMap idx s g =
     (let state_id = idx s in
      case map_of g state_id of
        Some v \<Rightarrow> (state_id, g)
      | None \<Rightarrow> (state_id, g @ [(state_id, new_Vertex s state_id)]))"

definition AddVertex ::
  "('st \<Rightarrow> int) \<Rightarrow> 'st \<Rightarrow> 'st Graph \<Rightarrow> vertex_iterator \<times> 'st Graph" where
  "AddVertex idx s g = ObtainVertexFromVertexMap idx s g"

text \<open>
  Modelled from the spec: \<open>Graph::AddEdge\<close> (graph_impl.hpp is not among the sources).
  The spec: "ensures both endpoint vertices exist (creating them if necessary), then
  inserts a new Edge or updates the cost of the existing edge for that ordered pair;
  updates the destination's predecessor list".
\<close>

fun set_cost :: "vertex_iterator \<Rightarrow> Transition \<Rightarrow> Edge list \<Rightarrow> Edge list" where
  "set_cost d c [] = []"
| "set_cost d c (e # es) = (if dst e = d then e\<lparr>cost := c\<rparr> # es else e # set_cost d c es)"

definition AddEdge ::
  "('st \<Rightarrow> int) \<Rightarrow> 'st \<Rightarrow> 'st \<Rightarrow> Transition \<Rightarrow> 'st Graph \<Rightarrow> 'st Graph" where
  "AddEdge idx sstate dstate tr g =
     (let (src_vertex, g1) = ObtainVertexFromVertexMap idx sstate g;
          (dst_vertex, g2) = ObtainVertexFromVertexMap idx dstate g1
      in case map_of g2 src_vertex of
           None \<Rightarrow> g2
         | Some sv \<Rightarrow>
             if dst_vertex \<in> dst ` set (edges_to sv)
             then AList.map_entry src_vertex
                    (\<lambda>v. v\<lparr>edges_to := set_cost dst_vertex tr (edges_to v)\<rparr>) g2
             else AList.map_entry src_vertex
                    (\<lambda>v. v\<lparr>edges_to := edges_to v @
                              [\<lparr>src = src_vertex, dst = dst_vertex, cost = tr\<rparr>]\<rparr>)
                    (AList.map_entry dst_vertex
                       (\<lambda>v. v\<lparr>vertices_from := vertices_from v @ [src_vertex]\<rparr>) g2))"

text \<open>
  Modelled from the spec: \<open>Graph::RemoveVertex\<close> (graph_impl.hpp is not among the
  sources). The spec: "if present, removes the vertex, releases its owned edges, and must
  also scrub every reference to it from the predecessor/edge lists of other vertices so no
  dangling edge remains. No-op if absent".
\<close>

definition scrub :: "vertex_iterator \<Rightarrow> 'st Vertex \<Rightarrow> 'st Vertex" where
  "scrub i v = v\<lparr>edges_to := filter (\<lambda>e. dst e \<noteq> i) (edges_to v),
                 vertices_from := filter (\<lambda>p. p \<noteq> i) (vertices_from v)\<rparr>"

definition RemoveVertex :: "int \<Rightarrow> 'st Graph \<Rightarrow> 'st Graph" where
  "RemoveVertex state_id g =
     (case map_of g state_id of
        None \<Rightarrow> g
      | Some v \<Rightarrow> map (\<lambda>(k, u). (k, scrub state_id u)) (AList.delete state_id g))"

text \<open>
  Modelled from the spec: \<open>Graph::GetAllEdges\<close> and \<open>GetGraphEdgeNumber\<close>, whose
  body in graph.hpp is \<open>GetAllEdges().size()\<close>. The spec: "enumerates every directed
  edge currently stored, across all vertices".
\<close>

definition GetAllEdges :: "'st Graph \<Rightarrow> Edge list" where
  "GetAllEdges g = concat (map (\<lambda>(k, v). edges_to v) g)"

definition GetGraphEdgeNumber :: "'st Graph \<Rightarrow> nat" where
  "GetGraphEdgeNumber g = length (GetAllEdges g)"

section \<open>The open list (priority_queue.hpp)\<close>

text \<open>
  \<open>PriorityQueue\<close> is a \<open>std::priority_queue\<close> of pairs (priority, item) under
  \<open>std::greater\<close>: \<open>get\<close> removes and returns an entry of least priority. The order
  between two entries of one priority is that of the items, which the sources do not
  define for \<open>vertex_iterator\<close>; the model takes it as the parameter \<open>tb\<close>, which
  picks among the entries of least priority (an invalid pick falls back to the first).
\<close>

type_synonym PriorityQueue = "(Transition \<times> vertex_iterator) list"
type_synonym tiebreak = "PriorityQueue \<Rightarrow> Transition \<times> vertex_iterator"

definition put :: "vertex_iterator \<Rightarrow> Transition \<Rightarrow> PriorityQueue \<Rightarrow> PriorityQueue" where
  "put item priority elements = elements @ [(priority, item)]"

definition least_entries :: "PriorityQueue \<Rightarrow> PriorityQueue" where
  "least_entries elements = filter (\<lambda>e. list_all (\<lambda>e'. fst e \<le> fst e') elements) elements"

definition top :: "tiebreak \<Rightarrow> PriorityQueue \<Rightarrow> (Transition \<times> vertex_iterator) option" where
  "top tb elements =
     (case least_entries elements of
        [] \<Rightarrow> None
      | c # cs \<Rightarrow> Some (if tb elements \<in> set (c # cs) then tb elements else c))"

definition get :: "tiebreak \<Rightarrow> PriorityQueue \<Rightarrow> (vertex_iterator \<times> PriorityQueue) option" where
  "get tb elements =
     (case top tb elements of
        None \<Rightarrow> None
      | Some e \<Rightarrow> Some (snd e, remove1 e elements))"

section \<open>A* search (astar.hpp)\<close>

text \<open>
  The variables of the search loop: the graph whose vertices the loop writes, the open
  list, \<open>found_path\<close>, and \<open>invalid\<close>, set when the loop would dereference an iterator
  that points at no vertex (which ends the run with an error value).
\<close>

record 'st search_state =
  graph :: "'st Graph"
  openlist :: PriorityQueue
  found_path :: bool
  invalid :: bool

definition search_cond :: "'st search_state \<Rightarrow> bool" where
  "search_cond s = (openlist s \<noteq> [] \<and> found_path s \<noteq> True \<and> \<not> invalid s)"

text \<open>
  The writes to a successor that is reached at a lower cost: parent, the three costs
  (\<open>f_cost_ = g_cost_ + h_cost_\<close>) and the open-list flag.
\<close>

definition reach :: "vertex_iterator \<Rightarrow> Transition \<Rightarrow> Transition \<Rightarrow> 'st Vertex \<Rightarrow> 'st Vertex" where
  "reach current_vertex new_cost h v =
     v\<lparr>search_parent := Some current_vertex, g_cost := new_cost, h_cost := h,
       f_cost := dadd new_cost h, is_in_openlist := True\<rparr>"

text \<open>The body of the loop over \<open>current_vertex->edges_to_\<close>, for one edge.\<close>

definition relax ::
  "('st \<Rightarrow> 'st \<Rightarrow> Transition) \<Rightarrow> vertex_iterator \<Rightarrow> vertex_iterator \<Rightarrow> Edge \<Rightarrow>
   'st search_state \<Rightarrow> 'st search_state" where
  "relax calc_heuristic goal_vtx current_vertex edge s =
     (case (map_of (graph s) current_vertex, map_of (graph s) (dst edge),
            map_of (graph s) goal_vtx) of
        (Some cv, Some successor, Some gv) \<Rightarrow>
          if is_checked successor = False then
            (let new_cost = dadd (g_cost cv) (cost edge) in
             if is_in_openlist successor = False \<or> new_cost < g_cost successor then
               (let h = calc_heuristic (state successor) (state gv)
                in s\<lparr>graph := AList.map_entry (dst edge) (reach current_vertex new_cost h)
                                (graph s),
                     openlist := put (dst edge) (dadd new_cost h) (openlist s)\<rparr>)
             else s)
          else s
      | _ \<Rightarrow> s\<lparr>invalid := True\<rparr>)"

definition mark_checked :: "'st Vertex \<Rightarrow> 'st Vertex" where
  "mark_checked v = v\<lparr>is_in_openlist := False, is_checked := True\<rparr>"

text \<open>One iteration of the while loop of \<open>PerformSearch\<close>.\<close>

definition search_step ::
  "tiebreak \<Rightarrow> ('st \<Rightarrow> 'st \<Rightarrow> Transition) \<Rightarrow> vertex_iterator \<Rightarrow>
   'st search_state \<Rightarrow> 'st search_state" where
  "search_step tb calc_heuristic goal_vtx s =
     (case get tb (openlist s) of
        None \<Rightarrow> s\<lparr>invalid := True\<rparr>
      | Some (current_vertex, q) \<Rightarrow>
          (case map_of (graph s) current_vertex of
             None \<Rightarrow> s\<lparr>openlist := q, invalid := True\<rparr>
           | Some cv \<Rightarrow>
               if is_checked cv then s\<lparr>openlist := q\<rparr>
               else if current_vertex = goal_vtx then s\<lparr>openlist := q, found_path := True\<rparr>
               else fold (relax calc_heuristic goal_vtx current_vertex) (edges_to cv)
                      (s\<lparr>graph := AList.map_entry current_vertex mark_checked (graph s),
                         openlist := q\<rparr>)))"

text \<open>The state before the first iteration: the start vertex is in the open list.\<close>

definition search_init :: "'st Graph \<Rightarrow> vertex_iterator \<Rightarrow> vertex_iterator \<Rightarrow> 'st search_state" where
  "search_init g start_vtx goal_vtx =
     \<lparr>graph = AList.map_entry start_vtx (\<lambda>v. v\<lparr>is_in_openlist := True, g_cost := 0\<rparr>) g,
      openlist = put start_vtx 0 [],
      found_path = False,
      invalid = (map_of g start_vtx = None \<or> map_of g goal_vtx = None)\<rparr>"

definition search_loop ::
  "tiebreak \<Rightarrow> 'st Graph \<Rightarrow> vertex_iterator \<Rightarrow> vertex_iterator \<Rightarrow>
   ('st \<Rightarrow> 'st \<Rightarrow> Transition) \<Rightarrow> 'st search_state option" where
  "search_loop tb g start_vtx goal_vtx calc_heuristic =
     while_option search_cond (search_step tb calc_heuristic goal_vtx)
       (search_init g start_vtx goal_vtx)"

text \<open>
  \<open>ReconstructPath\<close>: the loop variables are the waypoint, the path so far and a flag
  set when the waypoint or its \<open>search_parent_\<close> points at no vertex.
\<close>

definition reconstruct_step ::
  "'st Graph \<Rightarrow> vertex_iterator \<times> vertex_iterator list \<times> bool \<Rightarrow>
   vertex_iterator \<times> vertex_iterator list \<times> bool" where
  "reconstruct_step g = (\<lambda>(waypoint, path, bad).
     case map_of g waypoint of
       None \<Rightarrow> (waypoint, path, True)
     | Some v \<Rightarrow>
         (case search_parent v of
            None \<Rightarrow> (waypoint, path @ [waypoint], True)
          | Some p \<Rightarrow> (p, path @ [waypoint], False)))"

definition ReconstructPath ::
  "'st Graph \<Rightarrow> vertex_iterator \<Rightarrow> vertex_iterator \<Rightarrow> (error + vertex_iterator list) option" where
  "ReconstructPath g start_vtx goal_vtx =
     (case while_option (\<lambda>(waypoint, path, bad). waypoint \<noteq> start_vtx \<and> \<not> bad)
             (reconstruct_step g) (goal_vtx, [], False) of
        None \<Rightarrow> None
      | Some (waypoint, path, bad) \<Rightarrow>
          if bad then Some (Inl InvalidIterator) else Some (Inr (rev (path @ [waypoint]))))"

text \<open>The loop \<open>for (auto &wp : path_vtx) path.push_back(wp->state_)\<close>.\<close>

fun path_states :: "'st Graph \<Rightarrow> vertex_iterator list \<Rightarrow> error + 'st list" where
  "path_states g [] = Inr []"
| "path_states g (wp # path_vtx) =
     (case map_of g wp of
        None \<Rightarrow> Inl InvalidIterator
      | Some v \<Rightarrow> (case path_states g path_vtx of Inl e \<Rightarrow> Inl e | Inr path \<Rightarrow> Inr (state v # path)))"

text \<open>
  What follows the loop in \<open>PerformSearch\<close> and \<open>IncSearch\<close>. \<open>None\<close> is a run that
  does not return.
\<close>

definition finish ::
  "vertex_iterator \<Rightarrow> vertex_iterator \<Rightarrow> 'st search_state option \<Rightarrow> (error + 'st list) option" where
  "finish start_vtx goal_vtx r =
     (case r of
        None \<Rightarrow> None
      | Some s \<Rightarrow>
          if invalid s then Some (Inl InvalidIterator)
          else if found_path s then
            (case ReconstructPath (graph s) start_vtx goal_vtx of
               None \<Rightarrow> None
             | Some (Inl e) \<Rightarrow> Some (Inl e)
             | Some (Inr path_vtx) \<Rightarrow> Some (path_states (graph s) path_vtx))
          else Some (Inr []))"

definition PerformSearch ::
  "tiebreak \<Rightarrow> 'st Graph \<Rightarrow> vertex_iterator \<Rightarrow> vertex_iterator \<Rightarrow>
   ('st \<Rightarrow> 'st \<Rightarrow> Transition) \<Rightarrow> (error + 'st list) option" where
  "PerformSearch tb g start_vtx goal_vtx calc_heuristic =
     finish start_vtx goal_vtx (search_loop tb g start_vtx goal_vtx calc_heuristic)"

text \<open>\<open>Search\<close> by vertex identities.\<close>

definition Search ::
  "tiebreak \<Rightarrow> 'st Graph \<Rightarrow> int \<Rightarrow> int \<Rightarrow> ('st \<Rightarrow> 'st \<Rightarrow> Transition) \<Rightarrow>
   (error + 'st list) option" where
  "Search tb g start goal calc_heuristic =
     (let g0 = ResetAllVertices g in
      if FindVertex g0 start \<noteq> None \<and> FindVertex g0 goal \<noteq> None
      then PerformSearch tb g0 start goal calc_heuristic
      else Some (Inr []))"

text \<open>
  \<open>IncSearch\<close>: one iteration of its loop adds the edges that \<open>get_neighbours\<close>
  returns for the current state before it goes through \<open>edges_to_\<close>.
\<close>

definition inc_step ::
  "tiebreak \<Rightarrow> ('st \<Rightarrow> int) \<Rightarrow> ('st \<Rightarrow> ('st \<times> Transition) list) \<Rightarrow>
   ('st \<Rightarrow> 'st \<Rightarrow> Transition) \<Rightarrow> vertex_iterator \<Rightarrow>
   'st search_state \<Rightarrow> 'st search_state" where
  "inc_step tb idx get_neighbours calc_heuristic goal_vtx s =
     (case get tb (openlist s) of
        None \<Rightarrow> s\<lparr>invalid := True\<rparr>
      | Some (current_vertex, q) \<Rightarrow>
          (case map_of (graph s) current_vertex of
             None \<Rightarrow> s\<lparr>openlist := q, invalid := True\<rparr>
           | Some cv \<Rightarrow>
               if is_checked cv then s\<lparr>openlist := q\<rparr>
               else if current_vertex = goal_vtx then s\<lparr>openlist := q, found_path := True\<rparr>
               else
                 (let g1 = AList.map_entry current_vertex mark_checked (graph s);
                      g2 = fold (\<lambda>nb. AddEdge idx (state cv) (fst nb) (snd nb))
                             (get_neighbours (state cv)) g1
                  in case map_of g2 current_vertex of
                       None \<Rightarrow> s\<lparr>graph := g2, openlist := q, invalid := True\<rparr>
                     | Some cv2 \<Rightarrow>
                         fold (relax calc_heuristic goal_vtx current_vertex) (edges_to cv2)
                           (s\<lparr>graph := g2, openlist := q\<rparr>))))"

definition inc_loop ::
  "tiebreak \<Rightarrow> ('st \<Rightarrow> int) \<Rightarrow> 'st \<Rightarrow> 'st \<Rightarrow> ('st \<Rightarrow> ('st \<times> Transition) list) \<Rightarrow>
   ('st \<Rightarrow> 'st \<Rightarrow> Transition) \<Rightarrow> 'st search_state option" where
  "inc_loop tb idx sstate gstate get_neighbours calc_heuristic =
     (let (start_vtx, ga) = AddVertex idx sstate [];
          (goal_vtx, gb) = AddVertex idx gstate ga
      in while_option search_cond (inc_step tb idx get_neighbours calc_heuristic goal_vtx)
           (search_init gb start_vtx goal_vtx))"

definition IncSearch ::
  "tiebreak \<Rightarrow> 'st \<Rightarrow> 'st \<Rightarrow> ('st \<Rightarrow> ('st \<times> Transition) list) \<Rightarrow>
   ('st \<Rightarrow> 'st \<Rightarrow> Transition) \<Rightarrow> ('st \<Rightarrow> int) \<Rightarrow> (error + 'st list) option" where
  "IncSearch tb sstate gstate get_neighbours calc_heuristic indexer =
     finish (indexer sstate) (indexer gstate)
       (inc_loop tb indexer sstate gstate get_neighbours calc_heuristic)"

section \<open>Well-formed graphs, paths and the test scenario\<close>

text \<open>
  What the graph's own operations maintain: identities are unique, a vertex is stored
  under its identity, an edge is owned by its source and points at a vertex of the graph,
  and a vertex has at most one edge to any destination.
\<close>

definition graph_ok :: "'st Graph \<Rightarrow> bool" where
  "graph_ok g =
     (distinct (map fst g) \<and>
      list_all (\<lambda>(k, v). vertex_id v = k \<and> distinct (map dst (edges_to v)) \<and>
                 list_all (\<lambda>e. src e = k \<and> map_of g (dst e) \<noteq> None) (edges_to v)) g)"

text \<open>The graph of the concrete scenario: states are integers, indexed by themselves.\<close>

definition scenario :: "int Graph" where
  "scenario = fold (\<lambda>(a, b, c). AddEdge (\<lambda>s. s) a b c)
       [(1, 2, 1), (2, 3, 1), (1, 3, 5), (3, 4, 1), (4, 5, 1)]
       (fold (\<lambda>s g. snd (AddVertex (\<lambda>s. s) s g)) [1, 2, 3, 4, 5] [])"

text \<open>
  A graph on which a sum is rounded: its costs are doubles, and \<open>2 ^ 54 + 2\<close> and
  \<open>2 ^ 54 + 3\<close> are not.
\<close>

definition rounding_graph :: "int Graph" where
  "rounding_graph = fold (\<lambda>(a, b, c). AddEdge (\<lambda>s. s) a b c)
       [(1, 2, 2 ^ 54), (2, 3, 2), (3, 4, 2), (1, 5, 3), (5, 4, 2 ^ 54)]
       (fold (\<lambda>s g. snd (AddVertex (\<lambda>s. s) s g)) [1, 2, 3, 4, 5] [])"

text \<open>The fields of a vertex that a search writes.\<close>

definition search_fields ::
  "'st Vertex \<Rightarrow> bool \<times> bool \<times> Transition \<times> Transition \<times> Transition \<times> vertex_iterator option" where
  "search_fields v =
     (is_checked v, is_in_openlist v, g_cost v, h_cost v, f_cost v, search_parent v)"

section \<open>Paths and their cost\<close>

text \<open>
  A path is a non-empty list of vertex identities, each joined to the next by an edge of
  the graph; its cost is the sum of the costs of these edges, an edge being looked up as
  \<open>Vertex::FindEdge\<close> does, by the first edge to the destination.
\<close>

definition has_edge :: "'st Graph \<Rightarrow> int \<Rightarrow> int \<Rightarrow> bool" where
  "has_edge g u w = (case map_of g u of None \<Rightarrow> False | Some v \<Rightarrow> w \<in> dst ` set (edges_to v))"

definition edge_cost :: "'st Graph \<Rightarrow> int \<Rightarrow> int \<Rightarrow> Transition" where
  "edge_cost g u w =
     (case map_of g u of
        None \<Rightarrow> 0
      | Some v \<Rightarrow> (case find (\<lambda>e. dst e = w) (edges_to v) of None \<Rightarrow> 0 | Some e \<Rightarrow> cost e))"

fun is_path :: "'st Graph \<Rightarrow> int list \<Rightarrow> bool" where
  "is_path g [] = False"
| "is_path g [v] = (map_of g v \<noteq> None)"
| "is_path g (u # w # p) = (has_edge g u w \<and> is_path g (w # p))"

fun path_cost :: "'st Graph \<Rightarrow> int list \<Rightarrow> Transition" where
  "path_cost g (u # w # p) = edge_cost g u w + path_cost g (w # p)"
| "path_cost g p = 0"

definition reachable :: "'st Graph \<Rightarrow> int \<Rightarrow> int \<Rightarrow> bool" where
  "reachable g s t = (\<exists>p. is_path g p \<and> hd p = s \<and> last p = t)"

text \<open>
  The heuristic value of a vertex for a goal vertex, \<open>h(state, goal state)\<close>. A
  heuristic is consistent when \<open>h(u) \<le> cost(u, v) + h(v)\<close> along every edge, and
  admissible when it is no more than the cost of any path to the goal.
\<close>

definition hval :: "'st Graph \<Rightarrow> ('st \<Rightarrow> 'st \<Rightarrow> Transition) \<Rightarrow> int \<Rightarrow> int \<Rightarrow> Transition" where
  "hval g h goal k =
     (case (map_of g k, map_of g goal) of
        (Some v, Some gv) \<Rightarrow> h (state v) (state gv)
      | _ \<Rightarrow> 0)"

definition consistent :: "'st Graph \<Rightarrow> ('st \<Rightarrow> 'st \<Rightarrow> Transition) \<Rightarrow> int \<Rightarrow> bool" where
  "consistent G h goal =
     (\<forall>u w. has_edge G u w \<longrightarrow> hval G h goal u \<le> edge_cost G u w + hval G h goal w)"

definition admissible :: "'st Graph \<Rightarrow> ('st \<Rightarrow> 'st \<Rightarrow> Transition) \<Rightarrow> int \<Rightarrow> bool" where
  "admissible G h goal =
     (\<forall>p. is_path G p \<and> last p = goal \<longrightarrow> hval G h goal (hd p) \<le> path_cost G p)"

section \<open>Invariants of the search loop\<close>

text \<open>
  What a search state says of a vertex: checked, in the open list, its g-cost and its
  parent; and the edges of a vertex in a graph.
\<close>

definition chk :: "'st search_state \<Rightarrow> int \<Rightarrow> bool" where
  "chk s k = (case map_of (graph s) k of None \<Rightarrow> False | Some v \<Rightarrow> is_checked v)"

definition opn :: "'st search_state \<Rightarrow> int \<Rightarrow> bool" where
  "opn s k = (case map_of (graph s) k of None \<Rightarrow> False | Some v \<Rightarrow> is_in_openlist v)"

definition gc :: "'st search_state \<Rightarrow> int \<Rightarrow> Transition" where
  "gc s k = (case map_of (graph s) k of None \<Rightarrow> 0 | Some v \<Rightarrow> g_cost v)"

definition par :: "'st search_state \<Rightarrow> int \<Rightarrow> int option" where
  "par s k = (case map_of (graph s) k of None \<Rightarrow> None | Some v \<Rightarrow> search_parent v)"

definition edges_of :: "'st Graph \<Rightarrow> int \<Rightarrow> Edge list" where
  "edges_of g k = (case map_of g k of None \<Rightarrow> [] | Some v \<Rightarrow> edges_to v)"

text \<open>Two graphs have the same vertices, with the same states and edges.\<close>

definition shape :: "'st Graph \<Rightarrow> 'st Graph \<Rightarrow> bool" where
  "shape G g = (\<forall>k. case (map_of g k, map_of G k) of
       (None, None) \<Rightarrow> True
     | (Some v, Some v0) \<Rightarrow> state v = state v0 \<and> edges_to v = edges_to v0
     | _ \<Rightarrow> False)"

text \<open>
  The parent pointers from a vertex back to the start: every vertex but the last is
  checked, no vertex comes twice, each link is an edge of the graph, and the g-cost of a
  vertex is the rounded sum of its parent's g-cost and the cost of the edge.
\<close>

inductive chain :: "'st Graph \<Rightarrow> 'st search_state \<Rightarrow> int \<Rightarrow> int \<Rightarrow> int list \<Rightarrow> bool"
  for G :: "'st Graph" and s :: "'st search_state" and start :: int where
  chain_start: "chain G s start start [start]"
| chain_step: "chain G s start x p \<Longrightarrow> chk s x \<Longrightarrow> k \<noteq> start \<Longrightarrow> par s k = Some x \<Longrightarrow>
     e \<in> set (edges_of G x) \<Longrightarrow> dst e = k \<Longrightarrow> gc s k = dadd (gc s x) (cost e) \<Longrightarrow>
     k \<notin> set p \<Longrightarrow> chain G s start k (p @ [k])"

text \<open>
  The invariants: every entry of the open list is a vertex that is checked or is in the
  open list at a g-cost no worse than the entry's; until the goal is found, every
  unchecked vertex in the open list has an entry at its current f-cost; every edge of a
  checked vertex has been relaxed (but for the edges \<open>P\<close> the running iteration has
  yet to reach); every vertex seen has a chain of parents to the start.
\<close>

definition I_queue :: "'st Graph \<Rightarrow> ('st \<Rightarrow> 'st \<Rightarrow> Transition) \<Rightarrow> int \<Rightarrow> 'st search_state \<Rightarrow> bool" where
  "I_queue G h goal s = (\<forall>(p, k) \<in> set (openlist s).
      map_of G k \<noteq> None \<and> (chk s k \<or> (opn s k \<and> dadd (gc s k) (hval G h goal k) \<le> p)))"

definition I_front :: "'st Graph \<Rightarrow> ('st \<Rightarrow> 'st \<Rightarrow> Transition) \<Rightarrow> int \<Rightarrow> 'st search_state \<Rightarrow> bool" where
  "I_front G h goal s = (\<not> found_path s \<longrightarrow>
      (\<forall>k. opn s k \<and> \<not> chk s k \<longrightarrow>
           (dadd (gc s k) (hval G h goal k), k) \<in> set (openlist s)))"

definition I_relaxed :: "'st Graph \<Rightarrow> (int \<times> Edge) set \<Rightarrow> 'st search_state \<Rightarrow> bool" where
  "I_relaxed G P s = (\<forall>x e. chk s x \<and> e \<in> set (edges_of G x) \<and> (x, e) \<notin> P \<longrightarrow>
      chk s (dst e) \<or> (opn s (dst e) \<and> gc s (dst e) \<le> dadd (gc s x) (cost e)))"

definition I_tree :: "'st Graph \<Rightarrow> int \<Rightarrow> 'st search_state \<Rightarrow> bool" where
  "I_tree G start s = (\<forall>k. chk s k \<or> opn s k \<longrightarrow> (\<exists>p. chain G s start k p))"

definition I_base :: "'st Graph \<Rightarrow> int \<Rightarrow> int \<Rightarrow> 'st search_state \<Rightarrow> bool" where
  "I_base G start goal s = (shape G (graph s) \<and> \<not> invalid s \<and> \<not> chk s goal \<and>
      chk s start \<and> gc s start = 0 \<and> (found_path s \<longrightarrow> opn s goal))"

definition search_inv ::
  "'st Graph \<Rightarrow> ('st \<Rightarrow> 'st \<Rightarrow> Transition) \<Rightarrow> int \<Rightarrow> int \<Rightarrow> (int \<times> Edge) set \<Rightarrow>
   'st search_state \<Rightarrow> bool" where
  "search_inv G h start goal P s = (I_base G start goal s \<and> I_queue G h goal s \<and>
      I_front G h goal s \<and> I_relaxed G P s \<and> I_tree G start s)"

text \<open>
  No sum is rounded: along every path from the start that visits no vertex twice, the
  cost of the path, and that cost plus the heuristic value of the path's last vertex, are
  finite doubles. The search forms no other sums.
\<close>

definition representable :: "real \<Rightarrow> bool" where
  "representable x = (rnd x = x \<and> \<bar>x\<bar> < 2 ^ 1024)"

definition exact_sums ::
  "'st Graph \<Rightarrow> ('st \<Rightarrow> 'st \<Rightarrow> Transition) \<Rightarrow> int \<Rightarrow> int \<Rightarrow> bool" where
  "exact_sums G h start goal =
     (\<forall>p. is_path G p \<and> hd p = start \<and> distinct p \<longrightarrow>
        representable (path_cost G p) \<and>
        representable (path_cost G p + hval G h goal (last p)))"

text \<open>The g-cost of a checked vertex, and of the goal once found, is optimal.\<close>

definition I_opt :: "'st Graph \<Rightarrow> int \<Rightarrow> int \<Rightarrow> 'st search_state \<Rightarrow> bool" where
  "I_opt G start goal s = (\<forall>x q. (chk s x \<or> (found_path s \<and> x = goal)) \<and>
      is_path G q \<and> hd q = start \<and> last q = x \<longrightarrow> gc s x \<le> path_cost G q)"

text \<open>The number of vertices not yet checked: it decreases with every expansion.\<close>

definition n_unchecked :: "'st Graph \<Rightarrow> nat" where
  "n_unchecked g = length (filter (\<lambda>(k, v). \<not> is_checked v) g)"


text \<open>
  How a later state of a search relates to an earlier one, vertex by vertex: a vertex
  that was checked keeps every search field and gets no new entry in the open list; a
  vertex that was in the open list or checked is so still.
\<close>

definition later :: "'st search_state \<Rightarrow> 'st search_state \<Rightarrow> bool" where
  "later s s' = (\<forall>k v. map_of (graph s) k = Some v \<longrightarrow>
     (\<exists>v'. map_of (graph s') k = Some v' \<and>
        (is_checked v \<longrightarrow> search_fields v' = search_fields v \<and>
           (\<forall>p. count_list (openlist s') (p, k) \<le> count_list (openlist s) (p, k))) \<and>
        (is_in_openlist v \<or> is_checked v \<longrightarrow> is_in_openlist v' \<or> is_checked v')))"

text \<open>Every vertex is stored under the identity of its state.\<close>

definition indexed :: "('st \<Rightarrow> int) \<Rightarrow> 'st Graph \<Rightarrow> bool" where
  "indexed idx g = (\<forall>k v. map_of g k = Some v \<longrightarrow> idx (state v) = k)"

text \<open>The neighbour function of the concrete scenario.\<close>

definition scenario_neighbours :: "int \<Rightarrow> (int \<times> Transition) list" where
  "scenario_neighbours s =
     (if s = 1 then [(2, 1), (3, 5)] else if s = 2 then [(3, 1)]
      else if s = 3 then [(4, 1)] else if s = 4 then [(5, 1)] else [])"

text \<open>An indexer for the states \<open>(identity, payload)\<close>: two states can share an identity.\<close>

definition ex_idx :: "int \<times> int \<Rightarrow> int" where
  "ex_idx s = fst s"

section \<open>A pre-built graph for a neighbour function\<close>








text \<open>
  The state of \<open>Search\<close> on the pre-built graph \<open>G0\<close> that corresponds to a state of
  \<open>IncSearch\<close>: a vertex that \<open>IncSearch\<close> has seen (checked or in the open list) has
  the search fields \<open>IncSearch\<close> gave it, any other vertex is as in \<open>G0\<close>. The parent of
  the start vertex is never written and never read, and is left as in \<open>G0\<close>.
\<close>

definition merge :: "int \<Rightarrow> int \<Rightarrow> 'st Vertex option \<Rightarrow> 'st Vertex \<Rightarrow> 'st Vertex" where
  "merge start k vo v0 =
     (case vo of
        None \<Rightarrow> v0
      | Some v \<Rightarrow>
          if is_checked v \<or> is_in_openlist v
          then v0\<lparr>is_checked := is_checked v, is_in_openlist := is_in_openlist v,
                 f_cost := f_cost v, g_cost := g_cost v, h_cost := h_cost v,
                 search_parent := (if k = start then search_parent v0 else search_parent v)\<rparr>
          else v0)"

definition overlay :: "int \<Rightarrow> 'st Graph \<Rightarrow> 'st Graph \<Rightarrow> 'st Graph" where
  "overlay start G0 gi = map (\<lambda>(k, v0). (k, merge start k (map_of gi k) v0)) G0"

definition sim :: "int \<Rightarrow> 'st Graph \<Rightarrow> 'st search_state \<Rightarrow> 'st search_state" where
  "sim start G0 s = s\<lparr>graph := overlay start G0 (graph s)\<rparr>"




section \<open>Rounding to a double\<close>

lemma ulp_pos: "0 < ulp x"
  by (simp add: ulp_def)

lemma rne_int: "rne (of_int n) = n"
  by (simp add: rne_def)

lemma rne_mono: "a \<le> b \<Longrightarrow> rne a \<le> rne b"
proof -
  assume ab: "a \<le> b"
  then have fl: "\<lfloor>a\<rfloor> \<le> \<lfloor>b\<rfloor>" by (rule floor_mono)
  have ra: "rne a \<le> \<lfloor>a\<rfloor> + 1" and rb: "\<lfloor>b\<rfloor> \<le> rne b"
    by (simp_all add: rne_def)
  show ?thesis
  proof (cases "\<lfloor>a\<rfloor> = \<lfloor>b\<rfloor>")
    case True
    with ab show ?thesis by (simp add: rne_def)
  next
    case False
    with fl ra rb show ?thesis by linarith
  qed
qed

lemma rne_le: "y \<le> of_int n \<Longrightarrow> rne y \<le> n"
  using rne_mono [of y "of_int n"] by (simp add: rne_int)

lemma rne_ge: "of_int n \<le> y \<Longrightarrow> n \<le> rne y"
  using rne_mono [of "of_int n" y] by (simp add: rne_int)

lemma rnd_le: "x \<le> of_int n * ulp x \<Longrightarrow> rnd x \<le> of_int n * ulp x"
proof -
  assume "x \<le> of_int n * ulp x"
  then have "x / ulp x \<le> of_int n"
    using ulp_pos [of x] by (simp add: pos_divide_le_eq)
  then have "rne (x / ulp x) \<le> n" by (rule rne_le)
  then show ?thesis
    unfolding rnd_def using ulp_pos [of x] by simp
qed

lemma rnd_ge: "of_int n * ulp x \<le> x \<Longrightarrow> of_int n * ulp x \<le> rnd x"
proof -
  assume "of_int n * ulp x \<le> x"
  then have "of_int n \<le> x / ulp x"
    using ulp_pos [of x] by (simp add: pos_le_divide_eq)
  then have "n \<le> rne (x / ulp x)" by (rule rne_ge)
  then show ?thesis
    unfolding rnd_def using ulp_pos [of x] by simp
qed

lemma binade_upper: "x \<noteq> 0 \<Longrightarrow> \<bar>x\<bar> < 2 powr (of_int (binade x) + 1)"
proof -
  assume "x \<noteq> 0"
  then have "\<bar>x\<bar> < 2 powr (of_int \<lfloor>log 2 \<bar>x\<bar>\<rfloor> + 1)"
    using floor_log_eq_powr_iff [of "\<bar>x\<bar>" 2 "\<lfloor>log 2 \<bar>x\<bar>\<rfloor>"] by simp
  also have "\<dots> \<le> 2 powr (of_int (binade x) + 1)"
    by (simp add: binade_def)
  finally show ?thesis .
qed

lemma binade_lower: "x \<noteq> 0 \<Longrightarrow> - 1022 < binade x \<Longrightarrow> 2 powr (of_int (binade x)) \<le> \<bar>x\<bar>"
proof -
  assume x: "x \<noteq> 0" and "- 1022 < binade x"
  then have "binade x = \<lfloor>log 2 \<bar>x\<bar>\<rfloor>"
    by (simp add: binade_def max_def split: if_splits)
  then show ?thesis
    using x floor_log_eq_powr_iff [of "\<bar>x\<bar>" 2 "\<lfloor>log 2 \<bar>x\<bar>\<rfloor>"] by simp
qed

lemma binade_mono: "x \<noteq> 0 \<Longrightarrow> \<bar>x\<bar> \<le> \<bar>y\<bar> \<Longrightarrow> binade x \<le> binade y"
proof -
  assume "x \<noteq> 0" "\<bar>x\<bar> \<le> \<bar>y\<bar>"
  then have "log 2 \<bar>x\<bar> \<le> log 2 \<bar>y\<bar>" by simp
  then have "\<lfloor>log 2 \<bar>x\<bar>\<rfloor> \<le> \<lfloor>log 2 \<bar>y\<bar>\<rfloor>" by (rule floor_mono)
  then show ?thesis by (simp add: binade_def)
qed

lemma ulp_top: "2 ^ 53 * ulp x = 2 powr (of_int (binade x) + 1)"
proof -
  have "(2::real) powr (of_int (binade x) + 1) = 2 powr (53 + (of_int (binade x) - 52))"
    by (simp add: add.commute)
  also have "\<dots> = 2 powr 53 * 2 powr (of_int (binade x) - 52)"
    by (rule powr_add)
  finally show ?thesis by (simp add: ulp_def)
qed

lemma ulp_bottom: "2 ^ 52 * ulp x = 2 powr (of_int (binade x))"
proof -
  have "(2::real) powr (of_int (binade x)) = 2 powr (52 + (of_int (binade x) - 52))"
    by simp
  also have "\<dots> = 2 powr 52 * 2 powr (of_int (binade x) - 52)"
    by (rule powr_add)
  finally show ?thesis by (simp add: ulp_def)
qed

lemma rnd_upper: "x \<noteq> 0 \<Longrightarrow> rnd x \<le> 2 powr (of_int (binade x) + 1)"
proof -
  assume "x \<noteq> 0"
  from binade_upper [OF this] have "x \<le> of_int (2 ^ 53) * ulp x"
    unfolding of_int_power of_int_numeral ulp_top by simp
  from rnd_le [OF this] show ?thesis
    unfolding of_int_power of_int_numeral ulp_top .
qed

lemma rnd_lower: "x \<noteq> 0 \<Longrightarrow> - (2 powr (of_int (binade x) + 1)) \<le> rnd x"
proof -
  assume "x \<noteq> 0"
  from binade_upper [OF this] have "of_int (- (2 ^ 53)) * ulp x \<le> x"
    unfolding of_int_minus of_int_power of_int_numeral mult_minus_left ulp_top by simp
  from rnd_ge [OF this] show ?thesis
    unfolding of_int_minus of_int_power of_int_numeral mult_minus_left ulp_top .
qed

lemma rnd_normal_pos: "0 < x \<Longrightarrow> - 1022 < binade x \<Longrightarrow> 2 powr (of_int (binade x)) \<le> rnd x"
proof -
  assume "0 < x" "- 1022 < binade x"
  with binade_lower [of x] have "of_int (2 ^ 52) * ulp x \<le> x"
    unfolding of_int_power of_int_numeral ulp_bottom by simp
  from rnd_ge [OF this] show ?thesis
    unfolding of_int_power of_int_numeral ulp_bottom .
qed

lemma rnd_normal_neg: "x < 0 \<Longrightarrow> - 1022 < binade x \<Longrightarrow> rnd x \<le> - (2 powr (of_int (binade x)))"
proof -
  assume "x < 0" "- 1022 < binade x"
  with binade_lower [of x] have "x \<le> of_int (- (2 ^ 52)) * ulp x"
    unfolding of_int_minus of_int_power of_int_numeral mult_minus_left ulp_bottom by simp
  from rnd_le [OF this] show ?thesis
    unfolding of_int_minus of_int_power of_int_numeral mult_minus_left ulp_bottom .
qed

lemma rnd_same_binade:
  assumes "x \<le> y" "binade x = binade y"
  shows "rnd x \<le> rnd y"
proof -
  have u: "ulp x = ulp y" by (simp add: ulp_def assms(2))
  have "x / ulp y \<le> y / ulp y"
    using assms(1) ulp_pos [of y] by (simp add: divide_right_mono)
  then have "rne (x / ulp y) \<le> rne (y / ulp y)" by (rule rne_mono)
  then show ?thesis
    unfolding rnd_def u using ulp_pos [of y] by simp
qed

lemma rnd_mono:
  assumes "x \<le> y"
  shows "rnd x \<le> rnd y"
proof -
  consider "0 < x" | "x \<le> 0" "0 \<le> y" | "y < 0" by linarith
  then show ?thesis
  proof cases
    case 1
    with assms have b: "binade x \<le> binade y" by (intro binade_mono) simp_all
    show ?thesis
    proof (cases "binade x = binade y")
      case True
      with assms show ?thesis by (rule rnd_same_binade)
    next
      case False
      with b have lt: "binade x < binade y" by simp
      moreover have "- 1022 \<le> binade x" by (simp add: binade_def)
      ultimately have n: "- 1022 < binade y" by simp
      have "rnd x \<le> 2 powr (of_int (binade x) + 1)"
        using 1 by (intro rnd_upper) simp
      also have "\<dots> \<le> 2 powr (of_int (binade y))"
        using lt by simp
      also have "\<dots> \<le> rnd y"
        using 1 assms n by (intro rnd_normal_pos) simp_all
      finally show ?thesis .
    qed
  next
    case 2
    have "rnd x \<le> 0" using rnd_le [of x 0] 2 by simp
    moreover have "0 \<le> rnd y" using rnd_ge [of 0 y] 2 by simp
    ultimately show ?thesis by simp
  next
    case 3
    with assms have b: "binade y \<le> binade x" by (intro binade_mono) simp_all
    show ?thesis
    proof (cases "binade x = binade y")
      case True
      with assms show ?thesis by (rule rnd_same_binade)
    next
      case False
      with b have lt: "binade y < binade x" by simp
      moreover have "- 1022 \<le> binade y" by (simp add: binade_def)
      ultimately have n: "- 1022 < binade x" by simp
      have "rnd x \<le> - (2 powr (of_int (binade x)))"
        using 3 assms n by (intro rnd_normal_neg) simp_all
      also have "\<dots> \<le> - (2 powr (of_int (binade y) + 1))"
        using lt by simp
      also have "\<dots> \<le> rnd y"
        using 3 by (intro rnd_lower) simp
      finally show ?thesis .
    qed
  qed
qed

text \<open>The sum of two doubles is monotone in its first argument.\<close>

lemma dadd_mono: "a \<le> b \<Longrightarrow> dadd a c \<le> dadd b c"
  unfolding dadd_def by (rule rnd_mono) simp

lemma binade_eq:
  assumes "2 powr (of_int e) \<le> \<bar>x\<bar>" "\<bar>x\<bar> < 2 powr (of_int e + 1)" "- 1022 \<le> e"
  shows "binade x = e"
proof -
  have "0 < \<bar>x\<bar>" using assms(1) powr_gt_zero [of 2 "of_int e"] by linarith
  then have "\<lfloor>log 2 \<bar>x\<bar>\<rfloor> = e"
    using assms(1,2) floor_log_eq_powr_iff [of "\<bar>x\<bar>" 2 e] by simp
  with assms(3) show ?thesis by (simp add: binade_def)
qed

lemma rnd_grid: "x = of_int n * ulp x \<Longrightarrow> rnd x = x"
proof -
  assume x: "x = of_int n * ulp x"
  have "x / ulp x = of_int n"
    using ulp_pos [of x] by (subst x) simp
  then show ?thesis
    unfolding rnd_def using x by (simp add: rne_int)
qed

lemma rnd_0: "rnd 0 = 0"
  by (rule rnd_grid [of 0 0]) simp

lemma rnd_of_int:
  assumes "\<bar>n\<bar> < 2 ^ 53"
  shows "rnd (of_int n) = of_int n"
proof (cases "n = 0")
  case True
  then show ?thesis by (simp add: rnd_0)
next
  case False
  let ?x = "of_int n :: real"
  let ?k = "\<lfloor>log 2 \<bar>?x\<bar>\<rfloor>"
  have x1: "1 \<le> \<bar>?x\<bar>" using False by (simp flip: of_int_abs)
  have x2: "\<bar>?x\<bar> < 2 ^ 53"
    using assms by (metis of_int_abs of_int_less_iff of_int_numeral of_int_power)
  have k: "2 powr (of_int ?k) \<le> \<bar>?x\<bar>" "\<bar>?x\<bar> < 2 powr (of_int ?k + 1)"
    using x1 floor_log_eq_powr_iff [of "\<bar>?x\<bar>" 2 ?k] by simp_all
  have k0: "0 \<le> ?k"
    using x1 by simp
  have k53: "?k < 53"
    using x1 x2 by (simp add: log_less_iff)
  have b: "binade ?x = ?k"
    using k0 by (simp add: binade_def)
  have "ulp ?x = 2 powr (- real (nat (52 - ?k)))"
    using k53 by (simp add: ulp_def b)
  also have "\<dots> = 1 / 2 ^ nat (52 - ?k)"
    by (simp add: powr_minus powr_realpow inverse_eq_divide)
  finally have u: "ulp ?x = 1 / 2 ^ nat (52 - ?k)" .
  show ?thesis
    by (rule rnd_grid [of _ "n * 2 ^ nat (52 - ?k)"]) (simp add: u)
qed

lemma rnd_numeral: "(numeral k :: int) < 2 ^ 53 \<Longrightarrow> rnd (numeral k) = numeral k"
  using rnd_of_int [of "numeral k"] by simp

lemma rnd_1: "rnd 1 = 1"
  using rnd_of_int [of 1] by simp

lemmas dadd_eval = dadd_def rnd_0 rnd_1 rnd_numeral Let_def

lemma rnd_at:
  assumes "2 powr (of_int e) \<le> \<bar>x\<bar>" "\<bar>x\<bar> < 2 powr (of_int e + 1)" "- 1022 \<le> e"
  shows "rnd x = of_int (rne (x / 2 powr (of_int e - 52))) * 2 powr (of_int e - 52)"
  by (simp add: rnd_def ulp_def binade_eq [OF assms])

lemma rnd_examples:
  "rnd 18014398509481984 = 18014398509481984" "rnd 18014398509481986 = 18014398509481984"
  "rnd 18014398509481987 = 18014398509481988" "rnd 18014398509481988 = 18014398509481988"
  by (subst rnd_at [of 54], simp, simp, simp, simp add: rne_def)+

section \<open>Properties of the open list\<close>

lemma top_one: "least_entries q = [c] \<Longrightarrow> top tb q = Some c"
  by (simp add: top_def)

lemma get_one: "least_entries q = [c] \<Longrightarrow> get tb q = Some (snd c, remove1 c q)"
  by (simp add: get_def top_one)

lemma get_single: "get tb [e] = Some (snd e, [])"
  by (simp add: get_one least_entries_def)

lemma least_entries_nonempty:
  assumes "q \<noteq> []"
  shows "least_entries q \<noteq> []"
proof -
  let ?m = "Min (fst ` set q)"
  have "?m \<in> fst ` set q"
    using assms by (intro Min_in) auto
  then obtain e where e: "e \<in> set q" "fst e = ?m"
    by auto
  have "\<forall>e' \<in> set q. fst e \<le> fst e'"
    using e by auto
  with e(1) show ?thesis
    by (auto simp: least_entries_def filter_empty_conv list_all_iff)
qed

lemma top_least:
  assumes "top tb q = Some e"
  shows "e \<in> set q \<and> (\<forall>e' \<in> set q. fst e \<le> fst e')"
proof -
  have "e \<in> set (least_entries q)"
    using assms by (auto simp: top_def split: list.splits if_splits)
  then show ?thesis
    by (auto simp: least_entries_def list_all_iff)
qed

lemma get_Some:
  assumes "get tb q = Some (v, q')"
  obtains p where "(p, v) \<in> set q" "q' = remove1 (p, v) q" "\<forall>e \<in> set q. p \<le> fst e"
proof -
  from assms obtain e where e: "top tb q = Some e" "v = snd e" "q' = remove1 e q"
    by (auto simp: get_def split: option.splits)
  with top_least [OF e(1)] that [of "fst e"] show ?thesis
    by auto
qed

lemma get_nonempty: "q \<noteq> [] \<Longrightarrow> \<exists>v q'. get tb q = Some (v, q')"
  using least_entries_nonempty [of q]
  by (auto simp: get_def top_def split: list.splits option.splits)

lemma length_remove1_less: "x \<in> set xs \<Longrightarrow> length (remove1 x xs) < length xs"
  by (induction xs) auto

section \<open>Properties of the graph operations\<close>

lemmas graph_eval = AddEdge_def AddVertex_def ObtainVertexFromVertexMap_def new_Vertex_def
  ResetAllVertices_def ClearVertexSearchInfo_def Let_def

lemma Obtain_fst: "fst (ObtainVertexFromVertexMap idx s g) = idx s"
  by (simp add: ObtainVertexFromVertexMap_def Let_def split: option.splits)

lemma Obtain_present:
  "map_of g (idx s) = Some v \<Longrightarrow> ObtainVertexFromVertexMap idx s g = (idx s, g)"
  by (simp add: ObtainVertexFromVertexMap_def Let_def)

lemma Obtain_absent:
  "map_of g (idx s) = None \<Longrightarrow>
   ObtainVertexFromVertexMap idx s g = (idx s, g @ [(idx s, new_Vertex s (idx s))])"
  by (simp add: ObtainVertexFromVertexMap_def Let_def)

lemma map_of_Obtain:
  "map_of (snd (ObtainVertexFromVertexMap idx s g)) k =
     (case map_of g k of Some v \<Rightarrow> Some v
      | None \<Rightarrow> if k = idx s then Some (new_Vertex s (idx s)) else None)"
  by (auto simp: ObtainVertexFromVertexMap_def Let_def map_add_def split: option.splits)

text \<open>
  C6 (as amended): for two states of one identity, \<open>AddVertex(s1)\<close> followed by
  \<open>AddVertex(s2)\<close> returns the same vertex both times, the second call leaves the
  graph as the first left it (so the vertex count is the same), and the state stored
  under the identity is the one stored after the first call: \<open>s1\<close> when the graph
  had no vertex of that identity before, the state it already had otherwise.
\<close>

theorem AddVertex_twice:
  assumes "idx s1 = idx s2"
  shows "fst (AddVertex idx s2 (snd (AddVertex idx s1 g))) = fst (AddVertex idx s1 g) \<and>
     snd (AddVertex idx s2 (snd (AddVertex idx s1 g))) = snd (AddVertex idx s1 g) \<and>
     GetGraphVertexNumber (snd (AddVertex idx s2 (snd (AddVertex idx s1 g)))) =
       GetGraphVertexNumber (snd (AddVertex idx s1 g)) \<and>
     map_option state (FindVertex (snd (AddVertex idx s2 (snd (AddVertex idx s1 g)))) (idx s1)) =
       (case FindVertex g (idx s1) of None \<Rightarrow> Some s1 | Some v \<Rightarrow> Some (state v))"
proof -
  let ?g1 = "snd (AddVertex idx s1 g)"
  have "map_of ?g1 (idx s2) \<noteq> None"
    using assms by (simp add: AddVertex_def map_of_Obtain split: option.splits)
  then have e: "AddVertex idx s2 ?g1 = (idx s2, ?g1)"
    by (auto simp: AddVertex_def Obtain_present)
  have "map_option state (FindVertex ?g1 (idx s1)) =
       (case FindVertex g (idx s1) of None \<Rightarrow> Some s1 | Some v \<Rightarrow> Some (state v))"
    by (simp add: FindVertex_def AddVertex_def map_of_Obtain new_Vertex_def split: option.splits)
  then show ?thesis
    using assms by (simp add: e) (simp add: AddVertex_def Obtain_fst)
qed

theorem AddVertex_twice_witness:
  "ex_idx (7, 1) = ex_idx (7, 2) \<and>
   fst (AddVertex ex_idx (7, 2) (snd (AddVertex ex_idx (7, 1) []))) = 7 \<and>
   GetGraphVertexNumber (snd (AddVertex ex_idx (7, 2) (snd (AddVertex ex_idx (7, 1) [])))) = 1 \<and>
   map_option state
     (FindVertex (snd (AddVertex ex_idx (7, 2) (snd (AddVertex ex_idx (7, 1) [])))) 7) =
     Some (7, 1)"
proof -
  have h: "ex_idx (7, 1) = ex_idx (7, 2)"
    by (simp add: ex_idx_def)
  have g1: "snd (AddVertex ex_idx (7, 1) []) = [(7, new_Vertex (7, 1) 7)]"
    by (simp add: AddVertex_def ObtainVertexFromVertexMap_def ex_idx_def)
  show ?thesis
    using AddVertex_twice [of ex_idx "(7, 1)" "(7, 2)" "[]", OF h] h
    by (simp add: g1 GetGraphVertexNumber_def FindVertex_def)
      (simp add: AddVertex_def ObtainVertexFromVertexMap_def ex_idx_def)
qed

text \<open>
  The claim as stated, "the stored state remains s1" for every graph, fails on a graph
  that already holds a vertex of that identity with another state.
\<close>

theorem AddVertex_twice_counterexample:
  "\<not> (\<forall>(g :: (int \<times> int) Graph) s1 s2. ex_idx s1 = ex_idx s2 \<longrightarrow>
        map_option state (FindVertex (snd (AddVertex ex_idx s2 (snd (AddVertex ex_idx s1 g)))) (ex_idx s1))
          = Some s1)"
proof
  assume a: "\<forall>(g :: (int \<times> int) Graph) s1 s2. ex_idx s1 = ex_idx s2 \<longrightarrow>
        map_option state (FindVertex (snd (AddVertex ex_idx s2 (snd (AddVertex ex_idx s1 g)))) (ex_idx s1))
          = Some s1"
  have "map_option state (FindVertex (snd (AddVertex ex_idx (7, 2) (snd (AddVertex ex_idx (7, 1)
           (snd (AddVertex ex_idx (7, 0) [])))))) (ex_idx (7, 1))) = Some (7, 1)"
    by (rule a [rule_format]) (simp add: ex_idx_def)
  then show False
    by (simp add: AddVertex_def ObtainVertexFromVertexMap_def ex_idx_def new_Vertex_def FindVertex_def)
qed

lemma graph_ok_iff:
  "graph_ok g \<longleftrightarrow> distinct (map fst g) \<and>
     (\<forall>k v. map_of g k = Some v \<longrightarrow> vertex_id v = k \<and> distinct (map dst (edges_to v)) \<and>
        (\<forall>e \<in> set (edges_to v). src e = k \<and> map_of g (dst e) \<noteq> None))"
  unfolding graph_ok_def list_all_iff by (cases "distinct (map fst g)") auto

lemma distinct_Obtain:
  "distinct (map fst g) \<Longrightarrow> distinct (map fst (snd (ObtainVertexFromVertexMap idx s g)))"
  by (auto simp: ObtainVertexFromVertexMap_def Let_def map_of_eq_None_iff split: option.splits)

lemma graph_ok_Obtain:
  "graph_ok g \<Longrightarrow> graph_ok (snd (ObtainVertexFromVertexMap idx s g))"
  unfolding graph_ok_iff
  by (auto simp: distinct_Obtain map_of_Obtain new_Vertex_def simp del: map_of_eq_Some_iff
      split: option.splits if_splits; force)

lemma set_cost_props:
  "map dst (set_cost d c es) = map dst es" "map src (set_cost d c es) = map src es"
  "length (set_cost d c es) = length es"
  by (induction es) auto

lemma set_set_cost: "e \<in> set (set_cost d c es) \<Longrightarrow> \<exists>e' \<in> set es. src e = src e' \<and> dst e = dst e'"
  by (induction es) (auto split: if_splits)

lemma AddEdge_eq:
  fixes g :: "'st Graph" and idx :: "'st \<Rightarrow> int" and a b :: 'st
  defines "g2 \<equiv> snd (ObtainVertexFromVertexMap idx b (snd (ObtainVertexFromVertexMap idx a g)))"
  shows "\<exists>sv. map_of g2 (idx a) = Some sv \<and> map_of g2 (idx b) \<noteq> None \<and>
    AddEdge idx a b c g =
      (if idx b \<in> dst ` set (edges_to sv)
       then AList.map_entry (idx a) (\<lambda>v. v\<lparr>edges_to := set_cost (idx b) c (edges_to v)\<rparr>) g2
       else AList.map_entry (idx a)
              (\<lambda>v. v\<lparr>edges_to := edges_to v @ [\<lparr>src = idx a, dst = idx b, cost = c\<rparr>]\<rparr>)
              (AList.map_entry (idx b) (\<lambda>v. v\<lparr>vertices_from := vertices_from v @ [idx a]\<rparr>) g2))"
proof -
  have a: "map_of g2 (idx a) \<noteq> None" and b: "map_of g2 (idx b) \<noteq> None"
    by (auto simp: g2_def map_of_Obtain split: option.splits)
  then obtain sv where sv: "map_of g2 (idx a) = Some sv" by auto
  then show ?thesis
    using b by (simp add: AddEdge_def split_beta Obtain_fst g2_def)
qed

lemma graph_ok_AddEdge:
  assumes "graph_ok g"
  shows "graph_ok (AddEdge idx a b c g)"
proof -
  let ?g2 = "snd (ObtainVertexFromVertexMap idx b (snd (ObtainVertexFromVertexMap idx a g)))"
  have ok: "graph_ok ?g2" using assms by (intro graph_ok_Obtain)
  from AddEdge_eq [of idx b a g c] obtain sv where sv: "map_of ?g2 (idx a) = Some sv"
    and b: "map_of ?g2 (idx b) \<noteq> None"
    and E: "AddEdge idx a b c g =
      (if idx b \<in> dst ` set (edges_to sv)
       then AList.map_entry (idx a) (\<lambda>v. v\<lparr>edges_to := set_cost (idx b) c (edges_to v)\<rparr>) ?g2
       else AList.map_entry (idx a)
              (\<lambda>v. v\<lparr>edges_to := edges_to v @ [\<lparr>src = idx a, dst = idx b, cost = c\<rparr>]\<rparr>)
              (AList.map_entry (idx b) (\<lambda>v. v\<lparr>vertices_from := vertices_from v @ [idx a]\<rparr>) ?g2))"
    by blast
  show ?thesis
  proof (cases "idx b \<in> dst ` set (edges_to sv)")
    case True
    then show ?thesis using ok sv unfolding E graph_ok_iff
      by (auto simp: distinct_map_entry map_of_map_entry set_cost_props simp del: map_of_eq_Some_iff
          split: option.splits if_splits dest!: set_set_cost)
  next
    case False
    then show ?thesis using ok sv b unfolding E graph_ok_iff
      by (auto simp: distinct_map_entry map_of_map_entry simp del: map_of_eq_Some_iff
          split: option.splits if_splits)
  qed
qed

lemma AddEdge_has_edge:
  "\<exists>v. map_of (AddEdge idx a b c g) (idx a) = Some v \<and> idx b \<in> dst ` set (edges_to v)"
proof -
  let ?g2 = "snd (ObtainVertexFromVertexMap idx b (snd (ObtainVertexFromVertexMap idx a g)))"
  from AddEdge_eq [of idx b a g c] obtain sv where sv: "map_of ?g2 (idx a) = Some sv"
    and E: "AddEdge idx a b c g =
      (if idx b \<in> dst ` set (edges_to sv)
       then AList.map_entry (idx a) (\<lambda>v. v\<lparr>edges_to := set_cost (idx b) c (edges_to v)\<rparr>) ?g2
       else AList.map_entry (idx a)
              (\<lambda>v. v\<lparr>edges_to := edges_to v @ [\<lparr>src = idx a, dst = idx b, cost = c\<rparr>]\<rparr>)
              (AList.map_entry (idx b) (\<lambda>v. v\<lparr>vertices_from := vertices_from v @ [idx a]\<rparr>) ?g2))"
    by blast
  have "dst ` set (set_cost d c es) = dst ` set es" for d es
    using set_cost_props(1) [of d c es] by (metis set_map)
  then show ?thesis
    unfolding E using sv by (auto simp: map_of_map_entry split: option.splits)
qed

lemma AddEdge_present:
  assumes "map_of g (idx a) = Some v" "idx b \<in> dst ` set (edges_to v)" "graph_ok g"
  shows "AddEdge idx a b c g =
     AList.map_entry (idx a) (\<lambda>v. v\<lparr>edges_to := set_cost (idx b) c (edges_to v)\<rparr>) g"
proof -
  have "map_of g (idx b) \<noteq> None"
    using assms unfolding graph_ok_iff by auto
  then obtain w where "map_of g (idx b) = Some w" by auto
  then show ?thesis
    using assms(1,2) by (simp add: AddEdge_def Obtain_present)
qed

lemma filter_GetAllEdges:
  assumes "distinct (map fst g)" "\<forall>(k, v) \<in> set g. \<forall>e \<in> set (edges_to v). src e = k"
  shows "filter (\<lambda>e. src e = a \<and> Q e) (GetAllEdges g) =
     (case map_of g a of None \<Rightarrow> [] | Some v \<Rightarrow> filter Q (edges_to v))"
  using assms
proof (induction g)
  case Nil
  then show ?case by (simp add: GetAllEdges_def)
next
  case (Cons x g)
  obtain k v where x: "x = (k, v)" by (cases x)
  have IH: "filter (\<lambda>e. src e = a \<and> Q e) (GetAllEdges g) =
     (case map_of g a of None \<Rightarrow> [] | Some v \<Rightarrow> filter Q (edges_to v))"
    using Cons by simp
  have G: "GetAllEdges ((k, v) # g) = edges_to v @ GetAllEdges g"
    by (simp add: GetAllEdges_def)
  show ?case
  proof (cases "k = a")
    case True
    then have "map_of g a = None"
      using Cons.prems(1) x by (simp add: map_of_eq_None_iff)
    moreover have "filter (\<lambda>e. src e = a \<and> Q e) (edges_to v) = filter Q (edges_to v)"
      using Cons.prems(2) x True by (auto intro: filter_cong)
    ultimately show ?thesis
      using True G IH by (simp add: x)
  next
    case False
    have "filter (\<lambda>e. src e = a \<and> Q e) (edges_to v) = []"
      using Cons.prems(2) x False by (auto simp: filter_empty_conv)
    then show ?thesis
      using False G IH by (simp add: x)
  qed
qed

lemma filter_set_cost:
  assumes "distinct (map dst es)" "d \<in> dst ` set es" "\<forall>e \<in> set es. src e = a"
  shows "filter (\<lambda>e. dst e = d) (set_cost d c es) = [\<lparr>src = a, dst = d, cost = c\<rparr>]"
  using assms
proof (induction es)
  case Nil
  then show ?case by simp
next
  case (Cons e es)
  show ?case
  proof (cases "dst e = d")
    case True
    then have "d \<notin> dst ` set es"
      using Cons.prems(1) by simp
    then have "filter (\<lambda>e. dst e = d) es = []"
      by (auto simp: filter_empty_conv)
    then show ?thesis
      using True Cons.prems(3) by simp
  next
    case False
    then show ?thesis using Cons by auto
  qed
qed

lemma length_GetAllEdges_map_entry:
  assumes "\<And>v. length (edges_to (f v)) = length (edges_to v)"
  shows "length (GetAllEdges (AList.map_entry k f g)) = length (GetAllEdges g)"
  by (induction g) (auto simp: GetAllEdges_def assms)

text \<open>
  C5: on a well-formed graph, \<open>AddEdge(a, b, c1)\<close> followed by \<open>AddEdge(a, b, c2)\<close>
  leaves exactly one edge for the ordered pair, of cost \<open>c2\<close>, and as many edges in
  the graph as after the first call.
\<close>

theorem AddEdge_twice:
  assumes "graph_ok g"
  shows "filter (\<lambda>e. src e = idx a \<and> dst e = idx b)
           (GetAllEdges (AddEdge idx a b c2 (AddEdge idx a b c1 g))) =
         [\<lparr>src = idx a, dst = idx b, cost = c2\<rparr>] \<and>
       GetGraphEdgeNumber (AddEdge idx a b c2 (AddEdge idx a b c1 g)) =
         GetGraphEdgeNumber (AddEdge idx a b c1 g)"
proof -
  let ?g1 = "AddEdge idx a b c1 g"
  let ?f = "\<lambda>v::'a Vertex. v\<lparr>edges_to := set_cost (idx b) c2 (edges_to v)\<rparr>"
  have ok1: "graph_ok ?g1" using assms by (rule graph_ok_AddEdge)
  obtain v where v: "map_of ?g1 (idx a) = Some v" and b: "idx b \<in> dst ` set (edges_to v)"
    using AddEdge_has_edge [of idx a b c1 g] by blast
  have g2: "AddEdge idx a b c2 ?g1 = AList.map_entry (idx a) ?f ?g1"
    using v b ok1 by (rule AddEdge_present)
  have ok2: "graph_ok (AddEdge idx a b c2 ?g1)" using ok1 by (rule graph_ok_AddEdge)
  have v_ok: "distinct (map dst (edges_to v))" "\<forall>e \<in> set (edges_to v). src e = idx a"
    using ok1 v unfolding graph_ok_iff by auto
  have "filter (\<lambda>e. src e = idx a \<and> dst e = idx b) (GetAllEdges (AddEdge idx a b c2 ?g1)) =
     (case map_of (AddEdge idx a b c2 ?g1) (idx a) of None \<Rightarrow> []
      | Some v \<Rightarrow> filter (\<lambda>e. dst e = idx b) (edges_to v))"
    using ok2 unfolding graph_ok_def list_all_iff by (intro filter_GetAllEdges) auto
  also have "\<dots> = filter (\<lambda>e. dst e = idx b) (set_cost (idx b) c2 (edges_to v))"
    by (simp add: g2 map_of_map_entry v)
  also have "\<dots> = [\<lparr>src = idx a, dst = idx b, cost = c2\<rparr>]"
    using v_ok(1) b v_ok(2) by (rule filter_set_cost)
  finally show ?thesis
    by (simp add: GetGraphEdgeNumber_def g2 length_GetAllEdges_map_entry set_cost_props)
qed

theorem AddEdge_twice_witness:
  "graph_ok scenario \<and>
   filter (\<lambda>e. src e = 1 \<and> dst e = 2)
     (GetAllEdges (AddEdge (\<lambda>s. s) 1 2 9 (AddEdge (\<lambda>s. s) 1 2 5 scenario))) =
     [\<lparr>src = 1, dst = 2, cost = 9\<rparr>] \<and>
   GetGraphEdgeNumber (AddEdge (\<lambda>s. s) 1 2 9 (AddEdge (\<lambda>s. s) 1 2 5 scenario)) =
     GetGraphEdgeNumber (AddEdge (\<lambda>s. s) 1 2 5 scenario)"
proof -
  have ok: "graph_ok scenario"
    by (simp add: scenario_def graph_eval graph_ok_def)
  show ?thesis
    using AddEdge_twice [OF ok, of "\<lambda>s. s" 1 2 9 5] ok by simp
qed

lemma map_of_RemoveVertex:
  "map_of g i = Some x \<Longrightarrow>
   map_of (RemoveVertex i g) k = (if k = i then None else map_option (scrub i) (map_of g k))"
  by (simp add: RemoveVertex_def map_of_map delete_conv')

lemma GetAllEdges_RemoveVertex:
  assumes "graph_ok g" "map_of g i = Some x"
  shows "GetAllEdges (RemoveVertex i g) = filter (\<lambda>e. src e \<noteq> i \<and> dst e \<noteq> i) (GetAllEdges g)"
proof -
  have own: "\<forall>(k, v) \<in> set g. \<forall>e \<in> set (edges_to v). src e = k"
    using assms(1) unfolding graph_ok_def list_all_iff by auto
  have "GetAllEdges (map (\<lambda>(k, u). (k, scrub i u)) (AList.delete i h)) =
      filter (\<lambda>e. src e \<noteq> i \<and> dst e \<noteq> i) (GetAllEdges h)"
    if "\<forall>(k, v) \<in> set h. \<forall>e \<in> set (edges_to v). src e = k" for h :: "'a Graph"
    using that
  proof (induction h)
    case Nil
    then show ?case by (simp add: GetAllEdges_def)
  next
    case (Cons y h)
    obtain k v where y: "y = (k, v)" by (cases y)
    have IH: "GetAllEdges (map (\<lambda>(k, u). (k, scrub i u)) (AList.delete i h)) =
      filter (\<lambda>e. src e \<noteq> i \<and> dst e \<noteq> i) (GetAllEdges h)"
      using Cons by simp
    have s: "\<forall>e \<in> set (edges_to v). src e = k" using Cons.prems y by simp
    show ?case
    proof (cases "k = i")
      case True
      then have "filter (\<lambda>e. src e \<noteq> i \<and> dst e \<noteq> i) (edges_to v) = []"
        using s by (auto simp: filter_empty_conv)
      then show ?thesis using True IH by (simp add: y GetAllEdges_def)
    next
      case False
      then have "filter (\<lambda>e. src e \<noteq> i \<and> dst e \<noteq> i) (edges_to v) = filter (\<lambda>e. dst e \<noteq> i) (edges_to v)"
        using s by (auto intro: filter_cong)
      then show ?thesis using False IH by (simp add: y GetAllEdges_def scrub_def)
    qed
  qed
  then show ?thesis using own assms(2) by (simp add: RemoveVertex_def)
qed

text \<open>
  C7: on a well-formed graph holding the vertex \<open>i\<close>, after \<open>RemoveVertex(i)\<close> the
  vertex is gone, \<open>GetAllEdges\<close> lists exactly the former edges that did not touch
  \<open>i\<close>, so no edge has \<open>i\<close> as source or destination, no predecessor list mentions
  \<open>i\<close>, and the graph is still well-formed; on an absent identity the graph is
  unchanged.
\<close>

theorem RemoveVertex_clean:
  assumes "graph_ok g"
  shows "(FindVertex g i \<noteq> None \<longrightarrow>
            FindVertex (RemoveVertex i g) i = None \<and>
            GetAllEdges (RemoveVertex i g) =
              filter (\<lambda>e. src e \<noteq> i \<and> dst e \<noteq> i) (GetAllEdges g) \<and>
            (\<forall>e \<in> set (GetAllEdges (RemoveVertex i g)). src e \<noteq> i \<and> dst e \<noteq> i) \<and>
            (\<forall>(k, u) \<in> set (RemoveVertex i g). i \<notin> set (vertices_from u)) \<and>
            graph_ok (RemoveVertex i g)) \<and>
         (FindVertex g i = None \<longrightarrow> RemoveVertex i g = g)"
proof (intro conjI impI)
  assume "FindVertex g i = None"
  then show "RemoveVertex i g = g" by (simp add: RemoveVertex_def FindVertex_def)
next
  assume "FindVertex g i \<noteq> None"
  then obtain x where x: "map_of g i = Some x" by (auto simp: FindVertex_def)
  show "FindVertex (RemoveVertex i g) i = None"
    by (simp add: FindVertex_def map_of_RemoveVertex [OF x])
  show E: "GetAllEdges (RemoveVertex i g) = filter (\<lambda>e. src e \<noteq> i \<and> dst e \<noteq> i) (GetAllEdges g)"
    using assms x by (rule GetAllEdges_RemoveVertex)
  show "\<forall>e \<in> set (GetAllEdges (RemoveVertex i g)). src e \<noteq> i \<and> dst e \<noteq> i"
    unfolding E by simp
  show "\<forall>(k, u) \<in> set (RemoveVertex i g). i \<notin> set (vertices_from u)"
    using x by (auto simp: RemoveVertex_def scrub_def)
  show "graph_ok (RemoveVertex i g)"
    unfolding graph_ok_iff
  proof (intro conjI allI impI)
    show "distinct (map fst (RemoveVertex i g))"
      using assms x unfolding graph_ok_iff
      by (simp add: RemoveVertex_def distinct_delete comp_def case_prod_unfold)
  next
    fix k v assume "map_of (RemoveVertex i g) k = Some v"
    then obtain u where k: "k \<noteq> i" and u: "map_of g k = Some u" and v: "v = scrub i u"
      by (auto simp: map_of_RemoveVertex [OF x] split: if_splits)
    have uo: "vertex_id u = k" "distinct (map dst (edges_to u))"
      "\<forall>e \<in> set (edges_to u). src e = k \<and> map_of g (dst e) \<noteq> None"
      using assms u unfolding graph_ok_iff by auto
    show "vertex_id v = k" using uo by (simp add: v scrub_def)
    show "distinct (map dst (edges_to v))" using uo by (simp add: v scrub_def distinct_map_filter)
    show "\<forall>e \<in> set (edges_to v). src e = k \<and> map_of (RemoveVertex i g) (dst e) \<noteq> None"
      using uo by (auto simp: v scrub_def map_of_RemoveVertex [OF x])
  qed
qed

theorem RemoveVertex_clean_witness:
  "graph_ok scenario \<and> FindVertex scenario 3 \<noteq> None \<and>
   FindVertex (RemoveVertex 3 scenario) 3 = None \<and>
   map src (GetAllEdges (RemoveVertex 3 scenario)) = [1, 4] \<and>
   map dst (GetAllEdges (RemoveVertex 3 scenario)) = [2, 5] \<and>
   FindVertex scenario 6 = None \<and> RemoveVertex 6 scenario = scenario"
proof -
  have ok: "graph_ok scenario"
    by (simp add: scenario_def graph_eval graph_ok_def)
  have p: "FindVertex scenario 3 \<noteq> None" and a: "FindVertex scenario 6 = None"
    by (simp_all add: scenario_def graph_eval FindVertex_def)
  have e: "GetAllEdges scenario =
      [\<lparr>src = 1, dst = 2, cost = 1\<rparr>, \<lparr>src = 1, dst = 3, cost = 5\<rparr>,
       \<lparr>src = 2, dst = 3, cost = 1\<rparr>, \<lparr>src = 3, dst = 4, cost = 1\<rparr>,
       \<lparr>src = 4, dst = 5, cost = 1\<rparr>]"
    by (simp add: scenario_def graph_eval GetAllEdges_def)
  show ?thesis
    using RemoveVertex_clean [OF ok, of 3] RemoveVertex_clean [OF ok, of 6] ok p a
    by (simp add: e)
qed

lemma AddEdge_cases [case_names Update Insert]:
  fixes g :: "'st Graph" and idx :: "'st \<Rightarrow> int" and a b :: 'st
  defines "g2 \<equiv> snd (ObtainVertexFromVertexMap idx b (snd (ObtainVertexFromVertexMap idx a g)))"
  obtains
    (Update) sv where "map_of g2 (idx a) = Some sv" "map_of g2 (idx b) \<noteq> None"
      "idx b \<in> dst ` set (edges_to sv)"
      "AddEdge idx a b c g =
         AList.map_entry (idx a) (\<lambda>v. v\<lparr>edges_to := set_cost (idx b) c (edges_to v)\<rparr>) g2"
  | (Insert) sv where "map_of g2 (idx a) = Some sv" "map_of g2 (idx b) \<noteq> None"
      "idx b \<notin> dst ` set (edges_to sv)"
      "AddEdge idx a b c g =
         AList.map_entry (idx a)
           (\<lambda>v. v\<lparr>edges_to := edges_to v @ [\<lparr>src = idx a, dst = idx b, cost = c\<rparr>]\<rparr>)
           (AList.map_entry (idx b) (\<lambda>v. v\<lparr>vertices_from := vertices_from v @ [idx a]\<rparr>) g2)"
proof -
  have a: "map_of g2 (idx a) \<noteq> None" and b: "map_of g2 (idx b) \<noteq> None"
    by (auto simp: g2_def map_of_Obtain split: option.splits)
  then obtain sv where sv: "map_of g2 (idx a) = Some sv" by auto
  show ?thesis
  proof (cases "idx b \<in> dst ` set (edges_to sv)")
    case True
    with sv b show ?thesis
      by (intro Update [of sv]) (simp_all add: AddEdge_def split_beta Obtain_fst g2_def)
  next
    case False
    with sv b show ?thesis
      by (intro Insert [of sv]) (simp_all add: AddEdge_def split_beta Obtain_fst g2_def)
  qed
qed

lemma AddEdge_frame:
  assumes "map_of g k = Some v"
  shows "\<exists>v'. map_of (AddEdge idx a b c g) k = Some v' \<and> search_fields v' = search_fields v \<and>
     state v' = state v"
proof -
  let ?g2 = "snd (ObtainVertexFromVertexMap idx b (snd (ObtainVertexFromVertexMap idx a g)))"
  have k: "map_of ?g2 k = Some v"
    using assms by (simp add: map_of_Obtain)
  show ?thesis
    by (cases rule: AddEdge_cases [of idx b a g c])
      (use k in \<open>auto simp: map_of_map_entry search_fields_def\<close>)
qed

lemma fold_AddEdge_frame:
  assumes "map_of g k = Some v"
  shows "\<exists>v'. map_of (fold (\<lambda>nb. AddEdge idx a (fst nb) (snd nb)) nbs g) k = Some v' \<and>
     search_fields v' = search_fields v \<and> state v' = state v"
  using assms
proof (induction nbs arbitrary: g v)
  case Nil
  then show ?case by simp
next
  case (Cons nb nbs)
  from AddEdge_frame [OF Cons.prems, of idx a "fst nb" "snd nb"] obtain v1 where
    v1: "map_of (AddEdge idx a (fst nb) (snd nb) g) k = Some v1"
      "search_fields v1 = search_fields v" "state v1 = state v"
    by blast
  from Cons.IH [OF v1(1)] v1(2,3) show ?case
    by auto
qed

section \<open>The steps of the search, case by case\<close>

lemma relax_cases [case_names Invalid Skip Update]:
  obtains
    (Invalid) "map_of (graph s) cur = None \<or> map_of (graph s) (dst e) = None \<or>
               map_of (graph s) goal = None"
              "relax h goal cur e s = s\<lparr>invalid := True\<rparr>"
  | (Skip) cv sv gv where
      "map_of (graph s) cur = Some cv" "map_of (graph s) (dst e) = Some sv"
      "map_of (graph s) goal = Some gv"
      "is_checked sv \<or> (is_in_openlist sv \<and> g_cost sv \<le> dadd (g_cost cv) (cost e))"
      "relax h goal cur e s = s"
  | (Update) cv sv gv where
      "map_of (graph s) cur = Some cv" "map_of (graph s) (dst e) = Some sv"
      "map_of (graph s) goal = Some gv"
      "\<not> is_checked sv" "\<not> is_in_openlist sv \<or> dadd (g_cost cv) (cost e) < g_cost sv"
      "relax h goal cur e s =
         s\<lparr>graph := AList.map_entry (dst e)
                (reach cur (dadd (g_cost cv) (cost e)) (h (state sv) (state gv))) (graph s),
           openlist := openlist s @ [(dadd (dadd (g_cost cv) (cost e)) (h (state sv) (state gv)), dst e)]\<rparr>"
proof (cases "map_of (graph s) cur = None \<or> map_of (graph s) (dst e) = None \<or>
               map_of (graph s) goal = None")
  case True
  then have "relax h goal cur e s = s\<lparr>invalid := True\<rparr>"
    by (auto simp: relax_def split: option.splits)
  with True show ?thesis by (rule Invalid)
next
  case False
  then obtain cv sv gv where v: "map_of (graph s) cur = Some cv"
    "map_of (graph s) (dst e) = Some sv" "map_of (graph s) goal = Some gv"
    by auto
  show ?thesis
  proof (cases "\<not> is_checked sv \<and> (\<not> is_in_openlist sv \<or> dadd (g_cost cv) (cost e) < g_cost sv)")
    case True
    then have "relax h goal cur e s =
         s\<lparr>graph := AList.map_entry (dst e)
                (reach cur (dadd (g_cost cv) (cost e)) (h (state sv) (state gv))) (graph s),
           openlist := openlist s @ [(dadd (dadd (g_cost cv) (cost e)) (h (state sv) (state gv)), dst e)]\<rparr>"
      using v by (auto simp: relax_def put_def Let_def)
    with v True show ?thesis by (intro Update) auto
  next
    case False
    then have "relax h goal cur e s = s"
      using v by (auto simp: relax_def Let_def)
    with v False show ?thesis by (intro Skip [of cv sv gv]) auto
  qed
qed

lemma search_step_cases [case_names Empty Dangling Stale Goal Expand]:
  obtains
    (Empty) "get tb (openlist s) = None" "search_step tb h goal s = s\<lparr>invalid := True\<rparr>"
  | (Dangling) cur q where "get tb (openlist s) = Some (cur, q)" "map_of (graph s) cur = None"
      "search_step tb h goal s = s\<lparr>openlist := q, invalid := True\<rparr>"
  | (Stale) cur q cv where "get tb (openlist s) = Some (cur, q)" "map_of (graph s) cur = Some cv"
      "is_checked cv" "search_step tb h goal s = s\<lparr>openlist := q\<rparr>"
  | (Goal) cur q cv where "get tb (openlist s) = Some (cur, q)" "map_of (graph s) cur = Some cv"
      "\<not> is_checked cv" "cur = goal"
      "search_step tb h goal s = s\<lparr>openlist := q, found_path := True\<rparr>"
  | (Expand) cur q cv where "get tb (openlist s) = Some (cur, q)" "map_of (graph s) cur = Some cv"
      "\<not> is_checked cv" "cur \<noteq> goal"
      "search_step tb h goal s =
         fold (relax h goal cur) (edges_to cv)
           (s\<lparr>graph := AList.map_entry cur mark_checked (graph s), openlist := q\<rparr>)"
  unfolding search_step_def
  by (cases "get tb (openlist s)"; cases "map_of (graph s) (fst (the (get tb (openlist s))))";
      cases "is_checked (the (map_of (graph s) (fst (the (get tb (openlist s))))))";
      cases "fst (the (get tb (openlist s))) = goal")
     (auto split: prod.splits)

lemma inc_step_cases [case_names Empty Dangling Stale Goal Lost Expand]:
  obtains
    (Empty) "get tb (openlist s) = None" "inc_step tb idx nb h goal s = s\<lparr>invalid := True\<rparr>"
  | (Dangling) cur q where "get tb (openlist s) = Some (cur, q)" "map_of (graph s) cur = None"
      "inc_step tb idx nb h goal s = s\<lparr>openlist := q, invalid := True\<rparr>"
  | (Stale) cur q cv where "get tb (openlist s) = Some (cur, q)" "map_of (graph s) cur = Some cv"
      "is_checked cv" "inc_step tb idx nb h goal s = s\<lparr>openlist := q\<rparr>"
  | (Goal) cur q cv where "get tb (openlist s) = Some (cur, q)" "map_of (graph s) cur = Some cv"
      "\<not> is_checked cv" "cur = goal"
      "inc_step tb idx nb h goal s = s\<lparr>openlist := q, found_path := True\<rparr>"
  | (Lost) cur q cv g2 where "get tb (openlist s) = Some (cur, q)" "map_of (graph s) cur = Some cv"
      "\<not> is_checked cv" "cur \<noteq> goal"
      "g2 = fold (\<lambda>nb. AddEdge idx (state cv) (fst nb) (snd nb)) (nb (state cv))
              (AList.map_entry cur mark_checked (graph s))"
      "map_of g2 cur = None"
      "inc_step tb idx nb h goal s = s\<lparr>graph := g2, openlist := q, invalid := True\<rparr>"
  | (Expand) cur q cv g2 cv2 where "get tb (openlist s) = Some (cur, q)"
      "map_of (graph s) cur = Some cv"
      "\<not> is_checked cv" "cur \<noteq> goal"
      "g2 = fold (\<lambda>nb. AddEdge idx (state cv) (fst nb) (snd nb)) (nb (state cv))
              (AList.map_entry cur mark_checked (graph s))"
      "map_of g2 cur = Some cv2"
      "inc_step tb idx nb h goal s =
         fold (relax h goal cur) (edges_to cv2) (s\<lparr>graph := g2, openlist := q\<rparr>)"
  unfolding inc_step_def Let_def
  by (cases "get tb (openlist s)"; cases "map_of (graph s) (fst (the (get tb (openlist s))))";
      cases "is_checked (the (map_of (graph s) (fst (the (get tb (openlist s))))))";
      cases "fst (the (get tb (openlist s))) = goal";
      cases "map_of (fold (\<lambda>nb. AddEdge idx (state (the (map_of (graph s) (fst (the (get tb (openlist s)))))))
                 (fst nb) (snd nb)) (nb (state (the (map_of (graph s) (fst (the (get tb (openlist s))))))))
              (AList.map_entry (fst (the (get tb (openlist s)))) mark_checked (graph s)))
              (fst (the (get tb (openlist s))))")
     (auto split: prod.splits)

section \<open>Checked vertices are final\<close>

lemma later_refl: "later s s"
  by (simp add: later_def)

lemma later_trans:
  assumes "later s t" "later t u"
  shows "later s u"
  unfolding later_def
proof (intro allI impI)
  fix k v assume "map_of (graph s) k = Some v"
  with assms(1) obtain v' where 1: "map_of (graph t) k = Some v'"
    "is_checked v \<longrightarrow> search_fields v' = search_fields v \<and>
           (\<forall>p. count_list (openlist t) (p, k) \<le> count_list (openlist s) (p, k))"
    "is_in_openlist v \<or> is_checked v \<longrightarrow> is_in_openlist v' \<or> is_checked v'"
    unfolding later_def by blast
  with assms(2) obtain v'' where 2: "map_of (graph u) k = Some v''"
    "is_checked v' \<longrightarrow> search_fields v'' = search_fields v' \<and>
           (\<forall>p. count_list (openlist u) (p, k) \<le> count_list (openlist t) (p, k))"
    "is_in_openlist v' \<or> is_checked v' \<longrightarrow> is_in_openlist v'' \<or> is_checked v''"
    unfolding later_def by blast
  have c: "is_checked v \<Longrightarrow> is_checked v'"
    using 1(2) by (simp add: search_fields_def)
  have "is_checked v \<longrightarrow> search_fields v'' = search_fields v \<and>
           (\<forall>p. count_list (openlist u) (p, k) \<le> count_list (openlist s) (p, k))"
    using 1(2) 2(2) c by (auto intro: order_trans)
  with 1 2 show "\<exists>v'. map_of (graph u) k = Some v' \<and>
        (is_checked v \<longrightarrow> search_fields v' = search_fields v \<and>
           (\<forall>p. count_list (openlist u) (p, k) \<le> count_list (openlist s) (p, k))) \<and>
        (is_in_openlist v \<or> is_checked v \<longrightarrow> is_in_openlist v' \<or> is_checked v')"
    by blast
qed

lemma count_list_remove1: "count_list (remove1 e q) x \<le> count_list q x"
  by (induction q) auto

lemma later_relax: "later s (relax h goal cur e s)"
proof (cases rule: relax_cases [of s cur e goal h])
  case Invalid
  then show ?thesis by (simp add: later_def)
next
  case (Skip cv sv gv)
  then show ?thesis by (simp add: later_refl)
next
  case (Update cv sv gv)
  show ?thesis
    unfolding later_def Update(6) using Update(2,4)
    by (auto simp: map_of_map_entry reach_def search_fields_def)
qed

lemma later_fold_relax: "later s (fold (relax h goal cur) es s)"
proof (induction es arbitrary: s)
  case Nil
  then show ?case by (simp add: later_refl)
next
  case (Cons e es)
  show ?case
    using later_trans [OF later_relax Cons.IH] by simp
qed

lemma later_pop_mark:
  assumes "map_of (graph s) cur = Some cv" "\<not> is_checked cv"
  shows "later s (s\<lparr>graph := AList.map_entry cur mark_checked (graph s),
                    openlist := remove1 e (openlist s)\<rparr>)"
  unfolding later_def using assms
  by (auto simp: map_of_map_entry mark_checked_def count_list_remove1)

lemma later_search_step: "later s (search_step tb h goal s)"
proof (cases rule: search_step_cases [of tb s h goal])
  case Empty
  then show ?thesis by (simp add: later_def)
next
  case (Dangling cur q)
  then show ?thesis
    by (auto simp: later_def count_list_remove1 elim!: get_Some)
next
  case (Stale cur q cv)
  then show ?thesis
    by (auto simp: later_def count_list_remove1 elim!: get_Some)
next
  case (Goal cur q cv)
  then show ?thesis
    by (auto simp: later_def count_list_remove1 elim!: get_Some)
next
  case (Expand cur q cv)
  from Expand(1) obtain p where "q = remove1 (p, cur) (openlist s)"
    by (rule get_Some)
  then show ?thesis
    unfolding Expand(5)
    using later_trans [OF later_pop_mark [OF Expand(2,3)] later_fold_relax] by simp
qed

lemma later_inc_expand:
  assumes "get tb (openlist s) = Some (cur, q)" "map_of (graph s) cur = Some cv"
    "\<not> is_checked cv"
    "g2 = fold (\<lambda>nb. AddEdge idx a (fst nb) (snd nb)) nbs
              (AList.map_entry cur mark_checked (graph s))"
  shows "later s (s\<lparr>graph := g2, openlist := q\<rparr>)"
proof -
  from assms(1) obtain p where q: "q = remove1 (p, cur) (openlist s)"
    by (rule get_Some)
  let ?s1 = "s\<lparr>graph := AList.map_entry cur mark_checked (graph s), openlist := q\<rparr>"
  have 1: "later s ?s1"
    unfolding q by (rule later_pop_mark [OF assms(2,3)])
  have 2: "later ?s1 (s\<lparr>graph := g2, openlist := q\<rparr>)"
    unfolding later_def
  proof (intro allI impI)
    fix k v assume "map_of (graph ?s1) k = Some v"
    then have "map_of (AList.map_entry cur mark_checked (graph s)) k = Some v"
      by simp
    from fold_AddEdge_frame [OF this, of idx a nbs]
    obtain v' where "map_of g2 k = Some v'" "search_fields v' = search_fields v"
      unfolding assms(4) by blast
    then show "\<exists>v'. map_of (graph (s\<lparr>graph := g2, openlist := q\<rparr>)) k = Some v' \<and>
            (is_checked v \<longrightarrow>
             search_fields v' = search_fields v \<and>
             (\<forall>p. count_list (openlist (s\<lparr>graph := g2, openlist := q\<rparr>)) (p, k)
                  \<le> count_list (openlist ?s1) (p, k))) \<and>
            (is_in_openlist v \<or> is_checked v \<longrightarrow> is_in_openlist v' \<or> is_checked v')"
      by (auto simp: search_fields_def)
  qed
  from later_trans [OF 1 2] show ?thesis .
qed

lemma later_inc_step: "later s (inc_step tb idx nb h goal s)"
proof (cases rule: inc_step_cases [of tb s idx nb h goal])
  case Empty
  then show ?thesis by (simp add: later_def)
next
  case (Dangling cur q)
  then show ?thesis
    by (auto simp: later_def count_list_remove1 elim!: get_Some)
next
  case (Stale cur q cv)
  then show ?thesis
    by (auto simp: later_def count_list_remove1 elim!: get_Some)
next
  case (Goal cur q cv)
  then show ?thesis
    by (auto simp: later_def count_list_remove1 elim!: get_Some)
next
  case (Lost cur q cv g2)
  have "later s (s\<lparr>graph := g2, openlist := q\<rparr>)"
    using Lost(1-3,5) by (rule later_inc_expand)
  then show ?thesis
    unfolding Lost(7) by (simp add: later_def)
next
  case (Expand cur q cv g2 cv2)
  have "later s (s\<lparr>graph := g2, openlist := q\<rparr>)"
    using Expand(1-3,5) by (rule later_inc_expand)
  then show ?thesis
    unfolding Expand(7) using later_trans [OF _ later_fold_relax] by blast
qed

lemma later_funpow:
  assumes "\<And>s. later s (f s)"
  shows "later s ((f ^^ n) s)"
proof (induction n)
  case 0
  then show ?case by (simp add: later_refl)
next
  case (Suc n)
  from later_trans [OF Suc assms] show ?case by simp
qed

text \<open>
  C8: take any state \<open>s\<close> of a run of \<open>Search\<close> or \<open>IncSearch\<close> and the state
  \<open>s'\<close> any number of iterations later. A vertex checked in \<open>s\<close> is checked in
  \<open>s'\<close> with the same g-, h- and f-cost, parent and open-list flag, and the open list
  of \<open>s'\<close> holds no entry of it that \<open>s\<close> did not hold. A vertex in the open list or
  checked in \<open>s\<close> is in the open list or checked in \<open>s'\<close>.
\<close>

theorem checked_is_final:
  assumes "s' = (search_step tb h goal ^^ n) s \<or> s' = (inc_step tb idx nb h goal ^^ n) s"
    and "map_of (graph s) k = Some v"
  shows "\<exists>v'. map_of (graph s') k = Some v' \<and>
     (is_checked v \<longrightarrow>
        search_fields v' = search_fields v \<and>
        (\<forall>p. count_list (openlist s') (p, k) \<le> count_list (openlist s) (p, k))) \<and>
     (is_in_openlist v \<or> is_checked v \<longrightarrow> is_in_openlist v' \<or> is_checked v')"
proof -
  have "later s s'"
    using assms(1) later_funpow [of "search_step tb h goal", OF later_search_step]
      later_funpow [of "inc_step tb idx nb h goal", OF later_inc_step]
    by blast
  with assms(2) show ?thesis
    unfolding later_def by blast
qed

theorem checked_is_final_witness:
  "map_option is_checked
     (map_of (graph ((search_step (\<lambda>q. hd q) (\<lambda>a b. 0) 5 ^^ 2)
        (search_step (\<lambda>q. hd q) (\<lambda>a b. 0) 5 (search_init scenario 1 5)))) 1) = Some True"
proof -
  let ?s = "search_step (\<lambda>q. hd q) (\<lambda>a b. 0) 5 (search_init scenario 1 5)"
  have "\<exists>v. map_of (graph ?s) 1 = Some v \<and> is_checked v"
    by (simp add: scenario_def graph_eval search_init_def put_def)
      (simp add: search_step_def get_one least_entries_def relax_def reach_def
        mark_checked_def put_def dadd_eval)
  then obtain v where v: "map_of (graph ?s) 1 = Some v" "is_checked v"
    by blast
  let ?s' = "(search_step (\<lambda>q. hd q) (\<lambda>a b. 0) 5 ^^ 2) ?s"
  have "?s' = (search_step (\<lambda>q. hd q) (\<lambda>a b. 0) 5 ^^ 2) ?s \<or>
        ?s' = (inc_step (\<lambda>q. hd q) (\<lambda>s. s) (\<lambda>s. []) (\<lambda>a b. 0) 5 ^^ 2) ?s"
    by simp
  from checked_is_final [OF this v(1)] v(2) show ?thesis
    by (auto simp: search_fields_def)
qed

section \<open>IncSearch and the neighbours of the goal\<close>

lemma indexed_Obtain:
  "indexed idx g \<Longrightarrow> indexed idx (snd (ObtainVertexFromVertexMap idx s g))"
  by (auto simp: indexed_def map_of_Obtain new_Vertex_def split: option.splits if_splits)

lemma indexed_map_entry:
  assumes "indexed idx g" "\<And>v. state (f v) = state v"
  shows "indexed idx (AList.map_entry k f g)"
  using assms by (auto simp: indexed_def map_of_map_entry split: option.splits if_splits)

lemma indexed_AddEdge:
  assumes "indexed idx g"
  shows "indexed idx (AddEdge idx a b c g)"
proof -
  have "indexed idx (snd (ObtainVertexFromVertexMap idx b (snd (ObtainVertexFromVertexMap idx a g))))"
    using assms by (intro indexed_Obtain)
  then show ?thesis
    by (cases rule: AddEdge_cases [of idx b a g c]) (simp_all add: indexed_map_entry)
qed

lemma indexed_fold_AddEdge:
  "indexed idx g \<Longrightarrow> indexed idx (fold (\<lambda>nb. AddEdge idx a (fst nb) (snd nb)) nbs g)"
  by (induction nbs arbitrary: g) (auto simp: indexed_AddEdge)

lemma indexed_relax:
  "indexed idx (graph s) \<Longrightarrow> indexed idx (graph (relax h goal cur e s))"
  by (cases rule: relax_cases [of s cur e goal h]) (simp_all add: indexed_map_entry reach_def)

lemma indexed_fold_relax:
  "indexed idx (graph s) \<Longrightarrow> indexed idx (graph (fold (relax h goal cur) es s))"
  by (induction es arbitrary: s) (auto simp: indexed_relax)

lemma indexed_inc_step:
  assumes "indexed idx (graph s)"
  shows "indexed idx (graph (inc_step tb idx nb h goal s))"
proof (cases rule: inc_step_cases [of tb s idx nb h goal])
  case (Lost cur q cv g2)
  then show ?thesis
    using assms by (simp add: indexed_fold_AddEdge indexed_map_entry mark_checked_def)
next
  case (Expand cur q cv g2 cv2)
  have "indexed idx g2"
    unfolding Expand(5) using assms
    by (simp add: indexed_fold_AddEdge indexed_map_entry mark_checked_def)
  then show ?thesis
    unfolding Expand(7) by (simp add: indexed_fold_relax)
qed (use assms in simp_all)

lemma inc_step_agree:
  assumes "indexed idx (graph s)" "\<forall>x. x \<noteq> gstate \<longrightarrow> nb1 x = nb2 x"
  shows "inc_step tb idx nb1 h (idx gstate) s = inc_step tb idx nb2 h (idx gstate) s"
proof -
  have "nb1 (state cv) = nb2 (state cv)"
    if "map_of (graph s) cur = Some cv" "cur \<noteq> idx gstate" for cur cv
  proof -
    have "idx (state cv) = cur"
      using that(1) assms(1) by (simp add: indexed_def)
    with that(2) have "state cv \<noteq> gstate" by auto
    with assms(2) show ?thesis by simp
  qed
  then show ?thesis
    unfolding inc_step_def by (auto split: option.splits)
qed

lemma indexed_init:
  "indexed idx (graph (search_init (snd (AddVertex idx gstate (snd (AddVertex idx sstate [])))) a b))"
proof -
  have "indexed idx []" by (simp add: indexed_def)
  then show ?thesis
    by (simp add: search_init_def AddVertex_def indexed_map_entry indexed_Obtain)
qed

text \<open>
  C10: \<open>IncSearch\<close> gives the same result for two neighbour functions that agree on
  every state but the goal state: the loop ends when it pops the goal vertex, before it
  would ask for the neighbours of its state.
\<close>

theorem IncSearch_ignores_goal_neighbours:
  assumes "\<forall>x. x \<noteq> gstate \<longrightarrow> nb1 x = nb2 x"
  shows "IncSearch tb sstate gstate nb1 h idx = IncSearch tb sstate gstate nb2 h idx"
proof -
  let ?s0 = "search_init (snd (AddVertex idx gstate (snd (AddVertex idx sstate [])))) (idx sstate) (idx gstate)"
  have "map_option (\<lambda>s. s) (while_option search_cond (inc_step tb idx nb1 h (idx gstate)) ?s0) =
      while_option search_cond (inc_step tb idx nb2 h (idx gstate)) ?s0"
  proof (rule while_option_commute_invariant [where P = "\<lambda>s. indexed idx (graph s)"])
    show "indexed idx (graph ?s0)" by (rule indexed_init)
  qed (simp_all add: indexed_inc_step inc_step_agree [OF _ assms])
  then have "inc_loop tb idx sstate gstate nb1 h = inc_loop tb idx sstate gstate nb2 h"
    by (simp add: inc_loop_def split_beta AddVertex_def Obtain_fst option.map_ident)
  then show ?thesis
    by (simp add: IncSearch_def)
qed

theorem IncSearch_ignores_goal_neighbours_witness:
  "IncSearch (\<lambda>q. hd q) 1 5 scenario_neighbours (\<lambda>a b. 0) (\<lambda>s. s) =
   IncSearch (\<lambda>q. hd q) 1 5 (scenario_neighbours(5 := [(1, 1)])) (\<lambda>a b. 0) (\<lambda>s. s) \<and>
   scenario_neighbours 5 \<noteq> (scenario_neighbours(5 := [(1, 1)])) 5"
proof -
  have "\<forall>x. x \<noteq> 5 \<longrightarrow> scenario_neighbours x = (scenario_neighbours(5 := [(1, 1)])) x"
    by simp
  from IncSearch_ignores_goal_neighbours [OF this]
  have "IncSearch (\<lambda>q. hd q) 1 5 scenario_neighbours (\<lambda>a b. 0) (\<lambda>s. s) =
      IncSearch (\<lambda>q. hd q) 1 5 (scenario_neighbours(5 := [(1, 1)])) (\<lambda>a b. 0) (\<lambda>s. s)" .
  moreover have "scenario_neighbours 5 \<noteq> (scenario_neighbours(5 := [(1, 1)])) 5"
    by (simp add: scenario_neighbours_def)
  ultimately show ?thesis by (rule conjI)
qed

section \<open>Search from a vertex to itself\<close>

lemma map_of_ResetAllVertices:
  "map_of (ResetAllVertices g) k = map_option ClearVertexSearchInfo (map_of g k)"
  unfolding ResetAllVertices_def by (induction g) auto

lemma ReconstructPath_start: "ReconstructPath g v v = Some (Inr [v])"
  unfolding ReconstructPath_def by (subst while_option_unfold) simp

section \<open>Properties of paths\<close>

lemma is_path_nonempty: "is_path g p \<Longrightarrow> p \<noteq> []"
  by (cases p) auto

lemma is_path_snoc:
  "is_path g p \<Longrightarrow> has_edge g (last p) k \<Longrightarrow> map_of g k \<noteq> None \<Longrightarrow> is_path g (p @ [k])"
  by (induction g p rule: is_path.induct) auto

lemma path_cost_snoc:
  "p \<noteq> [] \<Longrightarrow> path_cost g (p @ [k]) = path_cost g p + edge_cost g (last p) k"
  by (induction g p rule: path_cost.induct) (auto simp: neq_Nil_conv)

lemma is_path_append:
  "is_path g (p @ x # q) \<longleftrightarrow> is_path g (p @ [x]) \<and> is_path g (x # q)"
proof (induction g p rule: is_path.induct)
  case (1 g)
  then show ?case by (cases q) (auto simp: has_edge_def split: option.splits)
next
  case (2 g v)
  then show ?case by (cases q) (auto simp: has_edge_def split: option.splits)
next
  case (3 g u w p)
  then show ?case by simp
qed

lemma path_cost_append:
  "path_cost g (p @ x # q) = path_cost g (p @ [x]) + path_cost g (x # q)"
  by (induction g p rule: path_cost.induct) (auto simp: neq_Nil_conv)

lemma is_path_last: "is_path g p \<Longrightarrow> map_of g (last p) \<noteq> None"
  by (induction g p rule: is_path.induct) auto

lemma is_path_hd: "is_path g p \<Longrightarrow> map_of g (hd p) \<noteq> None"
  by (induction g p rule: is_path.induct) (auto simp: has_edge_def split: option.splits)

lemma edge_cost_distinct:
  assumes "map_of g u = Some v" "distinct (map dst (edges_to v))" "e \<in> set (edges_to v)"
  shows "edge_cost g u (dst e) = cost e"
proof -
  have "find (\<lambda>e'. dst e' = dst e) es = Some e" if "distinct (map dst es)" "e \<in> set es" for es
    using that by (induction es) (auto simp: image_iff)
  with assms show ?thesis by (simp add: edge_cost_def)
qed

lemma first_change:
  assumes "C (hd q)" "\<not> C (last q)" "q \<noteq> []"
  shows "\<exists>q1 x y q2. q = q1 @ x # y # q2 \<and> C x \<and> \<not> C y"
  using assms
proof (induction q)
  case Nil
  then show ?case by simp
next
  case (Cons a q)
  show ?case
  proof (cases q)
    case Nil
    with Cons.prems show ?thesis by simp
  next
    case (Cons b r)
    show ?thesis
    proof (cases "C b")
      case True
      with Cons.IH Cons.prems Cons obtain q1 x y q2 where "q = q1 @ x # y # q2" "C x" "\<not> C y"
        by auto
      then have "a # q = (a # q1) @ x # y # q2 \<and> C x \<and> \<not> C y" by simp
      then show ?thesis by blast
    next
      case False
      with Cons.prems Cons have "a # q = [] @ a # b # r \<and> C a \<and> \<not> C b" by simp
      then show ?thesis by blast
    qed
  qed
qed

section \<open>Views of a search state\<close>

lemma views_openlist [simp]:
  "chk (s\<lparr>openlist := q\<rparr>) = chk s" "opn (s\<lparr>openlist := q\<rparr>) = opn s"
  "gc (s\<lparr>openlist := q\<rparr>) = gc s" "par (s\<lparr>openlist := q\<rparr>) = par s"
  by (simp_all add: chk_def opn_def gc_def par_def fun_eq_iff)

lemma views_found [simp]:
  "chk (s\<lparr>found_path := b\<rparr>) = chk s" "opn (s\<lparr>found_path := b\<rparr>) = opn s"
  "gc (s\<lparr>found_path := b\<rparr>) = gc s" "par (s\<lparr>found_path := b\<rparr>) = par s"
  by (simp_all add: chk_def opn_def gc_def par_def fun_eq_iff)

lemma views_mark:
  assumes "map_of (graph s) cur = Some cv"
  shows "chk (s\<lparr>graph := AList.map_entry cur mark_checked (graph s)\<rparr>) = (chk s)(cur := True)"
    "opn (s\<lparr>graph := AList.map_entry cur mark_checked (graph s)\<rparr>) = (opn s)(cur := False)"
    "gc (s\<lparr>graph := AList.map_entry cur mark_checked (graph s)\<rparr>) = gc s"
    "par (s\<lparr>graph := AList.map_entry cur mark_checked (graph s)\<rparr>) = par s"
  using assms
  by (auto simp: chk_def opn_def gc_def par_def fun_eq_iff map_of_map_entry mark_checked_def)

lemma views_reach:
  assumes "map_of (graph s) y = Some sv"
  shows "chk (s\<lparr>graph := AList.map_entry y (reach cur nc hc) (graph s)\<rparr>) = chk s"
    "opn (s\<lparr>graph := AList.map_entry y (reach cur nc hc) (graph s)\<rparr>) = (opn s)(y := True)"
    "gc (s\<lparr>graph := AList.map_entry y (reach cur nc hc) (graph s)\<rparr>) = (gc s)(y := nc)"
    "par (s\<lparr>graph := AList.map_entry y (reach cur nc hc) (graph s)\<rparr>) = (par s)(y := Some cur)"
  using assms
  by (auto simp: chk_def opn_def gc_def par_def fun_eq_iff map_of_map_entry reach_def)

lemma shape_map_entry:
  assumes "shape G g" "\<And>v. state (f v) = state v \<and> edges_to (f v) = edges_to v"
  shows "shape G (AList.map_entry k f g)"
  unfolding shape_def
proof
  fix j
  from assms(1) have "case (map_of g j, map_of G j) of
       (None, None) \<Rightarrow> True
     | (Some v, Some v0) \<Rightarrow> state v = state v0 \<and> edges_to v = edges_to v0
     | _ \<Rightarrow> False"
    unfolding shape_def by blast
  then show "case (map_of (AList.map_entry k f g) j, map_of G j) of
       (None, None) \<Rightarrow> True
     | (Some v, Some v0) \<Rightarrow> state v = state v0 \<and> edges_to v = edges_to v0
     | _ \<Rightarrow> False"
    using assms(2) by (auto simp: map_of_map_entry split: option.splits)
qed

lemma shape_Some:
  assumes "shape G g" "map_of g k = Some v"
  shows "\<exists>v0. map_of G k = Some v0 \<and> state v = state v0 \<and> edges_to v = edges_to v0"
  using assms(1) [unfolded shape_def, rule_format, of k] assms(2)
  by (auto split: option.splits)

lemma shape_Some':
  assumes "shape G g" "map_of G k = Some v0"
  shows "\<exists>v. map_of g k = Some v \<and> state v = state v0 \<and> edges_to v = edges_to v0"
  using assms(1) [unfolded shape_def, rule_format, of k] assms(2)
  by (auto split: option.splits)

lemma shape_None: "shape G g \<Longrightarrow> map_of g k = None \<longleftrightarrow> map_of G k = None"
  unfolding shape_def by (erule allE [of _ k]) (auto split: option.splits)

section \<open>The search tree\<close>

lemma chain_nonempty: "chain G s start k p \<Longrightarrow> p \<noteq> [] \<and> hd p = start \<and> last p = k"
  by (induction rule: chain.induct) auto

lemma chain_set: "chain G s start k p \<Longrightarrow> j \<in> set p \<Longrightarrow> j = k \<or> chk s j"
  by (induction rule: chain.induct) auto

lemma chain_mono:
  assumes "chain G s start k p" "\<And>j. chk s j \<Longrightarrow> chk t j"
    "\<And>j. j \<in> set p \<Longrightarrow> par t j = par s j \<and> gc t j = gc s j"
  shows "chain G t start k p"
  using assms
proof (induction rule: chain.induct)
  case chain_start
  show ?case by (rule chain.chain_start)
next
  case (chain_step x p k e)
  have x: "x \<in> set p"
    using chain_nonempty [OF chain_step(1)] by (metis last_in_set)
  have "chain G t start x p"
    using chain_step by simp
  moreover have "chk t x" using chain_step by simp
  moreover have "par t k = Some x" "gc t k = dadd (gc t x) (cost e)"
    using chain_step x by simp_all
  ultimately show ?case
    using chain_step(3,5,6,8) by (intro chain.chain_step)
qed

lemma chain_path:
  assumes "chain G s start k p" "graph_ok G" "map_of G start \<noteq> None"
  shows "is_path G p \<and> distinct p"
  using assms
proof (induction rule: chain.induct)
  case chain_start
  then show ?case by simp
next
  case (chain_step x p k e)
  then have IH: "is_path G p" "distinct p"
    by simp_all
  have l: "last p = x" "p \<noteq> []"
    using chain_nonempty [OF chain_step(1)] by simp_all
  from chain_step(5) obtain xv where xv: "map_of G x = Some xv" "e \<in> set (edges_to xv)"
    by (cases "map_of G x") (auto simp: edges_of_def)
  have k: "map_of G (dst e) \<noteq> None"
    using chain_step.prems(1) xv unfolding graph_ok_iff by auto
  have he: "has_edge G x k"
    using xv chain_step(6) by (auto simp: has_edge_def)
  show ?case
    using IH l he k chain_step(6,8) by (simp add: is_path_snoc)
qed

text \<open>When no sum is rounded, the g-cost at the end of a chain is the cost of its path.\<close>

lemma chain_cost:
  assumes "chain G s start k p" "graph_ok G" "map_of G start \<noteq> None"
    and "exact_sums G h start goal" "gc s start = 0"
  shows "path_cost G p = gc s k"
  using assms
proof (induction rule: chain.induct)
  case chain_start
  then show ?case by simp
next
  case (chain_step x p k e)
  then have IH: "path_cost G p = gc s x"
    by simp
  have l: "last p = x" "p \<noteq> []" "hd p = start"
    using chain_nonempty [OF chain_step(1)] by simp_all
  from chain_step(5) obtain xv where xv: "map_of G x = Some xv" "e \<in> set (edges_to xv)"
    by (cases "map_of G x") (auto simp: edges_of_def)
  have d: "distinct (map dst (edges_to xv))"
    using chain_step.prems(1) xv unfolding graph_ok_iff by auto
  have ec: "edge_cost G x k = cost e"
    using edge_cost_distinct [OF xv(1) d xv(2)] chain_step(6) by simp
  have pc: "path_cost G (p @ [k]) = gc s x + cost e"
    using IH l ec by (simp add: path_cost_snoc)
  have "chain G s start k (p @ [k])"
    using chain_step(1-8) by (rule chain.chain_step)
  from chain_path [OF this chain_step.prems(1,2)] have "is_path G (p @ [k])" "distinct (p @ [k])"
    by simp_all
  moreover have "hd (p @ [k]) = start"
    using l by simp
  ultimately have "representable (path_cost G (p @ [k]))"
    using chain_step.prems(3) unfolding exact_sums_def by blast
  then have "rnd (gc s x + cost e) = gc s x + cost e"
    unfolding pc by (simp add: representable_def)
  with chain_step(7) pc show ?case
    by (simp add: dadd_def)
qed

lemma ReconstructPath_chain:
  assumes "chain G s start k p"
  shows "while_option (\<lambda>(waypoint, path, bad). waypoint \<noteq> start \<and> \<not> bad)
             (reconstruct_step (graph s)) (k, acc, False) = Some (start, acc @ rev (tl p), False)"
  using assms
proof (induction arbitrary: acc rule: chain.induct)
  case chain_start
  then show ?case by (subst while_option_unfold) simp
next
  case (chain_step x p k e)
  from chain_step(4) obtain v where v: "map_of (graph s) k = Some v" "search_parent v = Some x"
    by (auto simp: par_def split: option.splits)
  have "p \<noteq> []" using chain_nonempty [OF chain_step(1)] by simp
  then have t: "tl (p @ [k]) = tl p @ [k]" by simp
  have st: "reconstruct_step (graph s) (k, acc, False) = (x, acc @ [k], False)"
    by (simp add: reconstruct_step_def v)
  let ?C = "\<lambda>(waypoint :: int, path :: int list, bad). waypoint \<noteq> start \<and> \<not> bad"
  have "while_option ?C (reconstruct_step (graph s)) (k, acc, False) =
      while_option ?C (reconstruct_step (graph s)) (x, acc @ [k], False)"
    by (subst while_option_unfold) (simp add: chain_step(3) st)
  also have "\<dots> = Some (start, acc @ rev (tl (p @ [k])), False)"
    using chain_step.IH [of "acc @ [k]"] by (simp add: t)
  finally show ?case .
qed

lemma path_states_Inr:
  assumes "\<forall>k \<in> set p. map_of g k \<noteq> None"
  shows "\<exists>path. path_states g p = Inr path \<and> length path = length p"
  using assms by (induction p) (auto split: option.splits)

lemma is_path_dom:
  assumes "is_path g p" "graph_ok g"
  shows "\<forall>k \<in> set p. map_of g k \<noteq> None"
  using assms(1)
  by (induction g p rule: is_path.induct) (auto simp: has_edge_def split: option.splits)

section \<open>The invariants are kept\<close>

lemma consistent_path:
  assumes "consistent G h goal" "is_path G p"
  shows "hval G h goal (hd p) \<le> path_cost G p + hval G h goal (last p)"
  using assms
proof (induction G p rule: is_path.induct)
  case (3 g u w p)
  then have "hval g h goal w \<le> path_cost g (w # p) + hval g h goal (last (w # p))"
    by simp
  moreover have "hval g h goal u \<le> edge_cost g u w + hval g h goal w"
    using 3 by (simp add: consistent_def)
  ultimately show ?case by simp
qed simp_all

lemma inv_update:
  assumes inv: "search_inv G h start goal (insert (cur, e) P) s"
    and cur: "chk s cur" and e: "e \<in> set (edges_of G cur)" and y: "dst e = y"
    and ny: "\<not> chk s y" and imp: "opn s y \<longrightarrow> nc < gc s y"
    and nc: "nc = dadd (gc s cur) (cost e)" and yG: "map_of G y \<noteq> None"
    and v: "chk s' = chk s" "opn s' = (opn s)(y := True)" "gc s' = (gc s)(y := nc)"
      "par s' = (par s)(y := Some cur)"
      "openlist s' = openlist s @ [(dadd nc (hval G h goal y), y)]"
      "found_path s' = found_path s" "invalid s' = invalid s" "shape G (graph s')"
  shows "search_inv G h start goal P s'"
proof -
  from inv have base: "I_base G start goal s" and qu: "I_queue G h goal s"
    and fr: "I_front G h goal s" and rl: "I_relaxed G (insert (cur, e) P) s"
    and tr: "I_tree G start s"
    by (simp_all add: search_inv_def)
  have sy: "start \<noteq> y" and cy: "cur \<noteq> y"
    using base ny cur by (auto simp: I_base_def)
  have 1: "I_base G start goal s'"
    using base sy by (simp add: I_base_def v)
  have 2: "I_queue G h goal s'"
    unfolding I_queue_def
  proof (intro ballI, clarify)
    fix p k assume "(p, k) \<in> set (openlist s')"
    then consider "(p, k) \<in> set (openlist s)" | "p = dadd nc (hval G h goal y)" "k = y"
      by (auto simp: v)
    then show "map_of G k \<noteq> None \<and> (chk s' k \<or> opn s' k \<and> dadd (gc s' k) (hval G h goal k) \<le> p)"
    proof cases
      case 1
      with qu have q: "map_of G k \<noteq> None" "chk s k \<or> (opn s k \<and> dadd (gc s k) (hval G h goal k) \<le> p)"
        by (auto simp: I_queue_def)
      show ?thesis
      proof (cases "k = y")
        case True
        with q ny have o: "opn s y" "dadd (gc s y) (hval G h goal y) \<le> p" by auto
        from o(1) imp have "nc \<le> gc s y" by simp
        then have "dadd nc (hval G h goal y) \<le> dadd (gc s y) (hval G h goal y)"
          by (rule dadd_mono)
        with o q(1) True show ?thesis by (simp add: v)
      next
        case False
        with q show ?thesis by (auto simp: v)
      qed
    next
      case 2
      with yG show ?thesis by (simp add: v)
    qed
  qed
  have 3: "I_front G h goal s'"
    using fr by (auto simp: I_front_def v)
  have 4: "I_relaxed G P s'"
    unfolding I_relaxed_def
  proof (intro allI impI, elim conjE)
    fix x e'
    assume x: "chk s' x" "e' \<in> set (edges_of G x)" "(x, e') \<notin> P"
    then have xy: "x \<noteq> y" using ny by (auto simp: v)
    show "chk s' (dst e') \<or> opn s' (dst e') \<and> gc s' (dst e') \<le> dadd (gc s' x) (cost e')"
    proof (cases "(x, e') = (cur, e)")
      case True
      then show ?thesis using y cy nc by (simp add: v)
    next
      case False
      with x rl have r: "chk s (dst e') \<or> opn s (dst e') \<and> gc s (dst e') \<le> dadd (gc s x) (cost e')"
        by (auto simp: I_relaxed_def v)
      show ?thesis
      proof (cases "dst e' = y")
        case True
        with r ny imp xy show ?thesis by (auto simp: v)
      next
        case False
        with r xy show ?thesis by (auto simp: v)
      qed
    qed
  qed
  have mono: "chain G s' start k p" if "chain G s start k p" "k \<noteq> y" for k p
  proof (rule chain_mono [OF that(1)])
    fix j assume "j \<in> set p"
    with chain_set [OF that(1)] that(2) ny have "j \<noteq> y" by auto
    then show "par s' j = par s j \<and> gc s' j = gc s j" by (simp add: v)
  qed (simp add: v)
  have 5: "I_tree G start s'"
    unfolding I_tree_def
  proof (intro allI impI)
    fix k assume k: "chk s' k \<or> opn s' k"
    show "\<exists>p. chain G s' start k p"
    proof (cases "k = y")
      case True
      from tr cur obtain p where p: "chain G s start cur p"
        by (auto simp: I_tree_def)
      have "y \<notin> set p"
        using chain_set [OF p, of y] cy ny by auto
      moreover from p have "chain G s' start cur p" using cy by (rule mono)
      ultimately have "chain G s' start y (p @ [y])"
        using cur sy e y nc cy by (intro chain_step [where x = cur and e = e]) (simp_all add: v)
      with True show ?thesis by blast
    next
      case False
      with k tr obtain p where "chain G s start k p"
        by (auto simp: I_tree_def v)
      then have "chain G s' start k p" using False by (rule mono)
      then show ?thesis by blast
    qed
  qed
  from 1 2 3 4 5 show ?thesis by (simp add: search_inv_def)
qed

lemma inv_weaken:
  assumes "search_inv G h start goal P s" "P \<subseteq> P'"
  shows "search_inv G h start goal P' s"
  using assms unfolding search_inv_def I_relaxed_def by blast

lemma views_invalid [simp]:
  "chk (s\<lparr>invalid := b\<rparr>) = chk s" "opn (s\<lparr>invalid := b\<rparr>) = opn s"
  "gc (s\<lparr>invalid := b\<rparr>) = gc s" "par (s\<lparr>invalid := b\<rparr>) = par s"
  by (simp_all add: chk_def opn_def gc_def par_def fun_eq_iff)

lemma relax_chk: "chk (relax h goal cur e s) = chk s"
  by (cases rule: relax_cases [of s cur e goal h]) (simp_all add: views_reach)

lemma relax_found: "found_path (relax h goal cur e s) = found_path s"
  by (cases rule: relax_cases [of s cur e goal h]) simp_all

lemma edges_of_ok:
  assumes "graph_ok G" "e \<in> set (edges_of G x)"
  shows "map_of G (dst e) \<noteq> None" "map_of G x \<noteq> None" "has_edge G x (dst e)"
    "edge_cost G x (dst e) = cost e"
proof -
  from assms(2) obtain xv where xv: "map_of G x = Some xv" "e \<in> set (edges_to xv)"
    by (cases "map_of G x") (auto simp: edges_of_def)
  have d: "distinct (map dst (edges_to xv))"
    using assms(1) xv unfolding graph_ok_iff by auto
  show "map_of G (dst e) \<noteq> None"
    using assms(1) xv unfolding graph_ok_iff by auto
  show "map_of G x \<noteq> None" using xv by simp
  show "has_edge G x (dst e)" using xv by (auto simp: has_edge_def)
  show "edge_cost G x (dst e) = cost e"
    using edge_cost_distinct [OF xv(1) d xv(2)] .
qed

lemma has_edge_edges_of: "has_edge G x y \<Longrightarrow> \<exists>e \<in> set (edges_of G x). dst e = y"
  by (auto simp: has_edge_def edges_of_def split: option.splits)

lemma inv_relax:
  assumes inv: "search_inv G h start goal (insert (cur, e) P) s"
    and cur: "chk s cur" and e: "e \<in> set (edges_of G cur)"
    and ok: "graph_ok G" and goal: "map_of G goal \<noteq> None"
  shows "search_inv G h start goal P (relax h goal cur e s)"
proof -
  from inv have sh: "shape G (graph s)"
    by (simp add: search_inv_def I_base_def)
  have dG: "map_of G (dst e) \<noteq> None"
    using edges_of_ok(1) [OF ok e] .
  show ?thesis
  proof (cases rule: relax_cases [of s cur e goal h])
    case Invalid
    moreover have "map_of (graph s) cur \<noteq> None"
      using cur by (auto simp: chk_def split: option.splits)
    moreover have "map_of (graph s) (dst e) \<noteq> None" "map_of (graph s) goal \<noteq> None"
      using dG goal by (simp_all add: shape_None [OF sh])
    ultimately show ?thesis by blast
  next
    case (Skip cv sv gv)
    then have "chk s (dst e) \<or> (opn s (dst e) \<and> gc s (dst e) \<le> dadd (gc s cur) (cost e))"
      by (auto simp: chk_def opn_def gc_def)
    then have "I_relaxed G P s"
      using inv unfolding search_inv_def I_relaxed_def by blast
    then show ?thesis
      using inv Skip(5) by (simp add: search_inv_def)
  next
    case (Update cv sv gv)
    let ?nc = "dadd (g_cost cv) (cost e)"
    let ?hc = "h (state sv) (state gv)"
    let ?s' = "relax h goal cur e s"
    have hv: "hval G h goal (dst e) = ?hc"
      using shape_Some [OF sh Update(2)] shape_Some [OF sh Update(3)]
      by (auto simp: hval_def)
    have g: "graph ?s' = AList.map_entry (dst e) (reach cur ?nc ?hc) (graph s)"
      by (simp add: Update(6))
    have views: "chk ?s' = chk s" "opn ?s' = (opn s)(dst e := True)"
      "gc ?s' = (gc s)(dst e := ?nc)" "par ?s' = (par s)(dst e := Some cur)"
      unfolding Update(6) by (simp_all add: views_reach [OF Update(2)])
    show ?thesis
    proof (rule inv_update [OF inv cur e refl, where nc = ?nc])
      show "\<not> chk s (dst e)" using Update(2,4) by (simp add: chk_def)
      show "opn s (dst e) \<longrightarrow> ?nc < gc s (dst e)"
        using Update(2,5) by (auto simp: opn_def gc_def)
      show "?nc = dadd (gc s cur) (cost e)" using Update(1) by (simp add: gc_def)
      show "map_of G (dst e) \<noteq> None" by (rule dG)
      show "openlist ?s' = openlist s @ [(dadd ?nc (hval G h goal (dst e)), dst e)]"
        by (simp add: Update(6) hv)
      show "found_path ?s' = found_path s" "invalid ?s' = invalid s"
        by (simp_all add: Update(6))
      show "shape G (graph ?s')"
        unfolding g by (rule shape_map_entry [OF sh]) (simp add: reach_def)
    qed (rule views)+
  qed
qed

lemma inv_fold_relax:
  assumes "search_inv G h start goal ({cur} \<times> set es) s"
    and "chk s cur" and "set es \<subseteq> set (edges_of G cur)"
    and "graph_ok G" and "map_of G goal \<noteq> None"
  shows "search_inv G h start goal {} (fold (relax h goal cur) es s)"
  using assms(1-3)
proof (induction es arbitrary: s)
  case Nil
  then show ?case by simp
next
  case (Cons e es)
  have "search_inv G h start goal (insert (cur, e) ({cur} \<times> set es)) s"
    using Cons.prems(1) by (rule inv_weaken) auto
  then have "search_inv G h start goal ({cur} \<times> set es) (relax h goal cur e s)"
    using Cons.prems(2,3) assms(4,5) by (intro inv_relax) auto
  then show ?case
    using Cons.prems(2,3) by (simp add: Cons.IH relax_chk)
qed

lemma fold_relax_chk: "chk (fold (relax h goal cur) es s) = chk s"
  by (induction es arbitrary: s) (simp_all add: relax_chk)

lemma fold_relax_found: "found_path (fold (relax h goal cur) es s) = found_path s"
  by (induction es arbitrary: s) (simp_all add: relax_found)

lemma relax_gc_checked: "chk s x \<Longrightarrow> gc (relax h goal cur e s) x = gc s x"
proof (cases rule: relax_cases [of s cur e goal h])
  case (Update cv sv gv)
  assume "chk s x"
  with Update(2,4) have "x \<noteq> dst e" by (auto simp: chk_def)
  then show ?thesis
    unfolding Update(6) by (simp add: views_reach [OF Update(2)])
qed simp_all

lemma fold_relax_gc_checked: "chk s x \<Longrightarrow> gc (fold (relax h goal cur) es s) x = gc s x"
  by (induction es arbitrary: s) (simp_all add: relax_chk relax_gc_checked)

lemma I_queue_remove1:
  assumes "I_queue G h goal s" "openlist s' = remove1 x (openlist s)"
    "\<And>k. chk s k \<Longrightarrow> chk s' k" "\<And>k. \<not> chk s' k \<Longrightarrow> opn s' k = opn s k" "gc s' = gc s"
  shows "I_queue G h goal s'"
  unfolding I_queue_def
proof (intro ballI, clarify)
  fix p k assume "(p, k) \<in> set (openlist s')"
  then have "(p, k) \<in> set (openlist s)"
    using assms(2) set_remove1_subset [of x "openlist s"] by auto
  with assms(1) have 1: "map_of G k \<noteq> None"
    and 2: "chk s k \<or> (opn s k \<and> dadd (gc s k) (hval G h goal k) \<le> p)"
    by (auto simp: I_queue_def)
  from 2 assms(3,4) [of k] have "chk s' k \<or> (opn s' k \<and> dadd (gc s' k) (hval G h goal k) \<le> p)"
    unfolding assms(5) by blast
  with 1 show "map_of G k \<noteq> None \<and> (chk s' k \<or> opn s' k \<and> dadd (gc s' k) (hval G h goal k) \<le> p)"
    by simp
qed

lemma I_front_remove1:
  assumes "I_front G h goal s" "openlist s' = remove1 (p, cur) (openlist s)"
    "chk s' cur" "\<And>k. k \<noteq> cur \<Longrightarrow> chk s' k = chk s k \<and> opn s' k = opn s k"
    "gc s' = gc s" "found_path s' = found_path s"
  shows "I_front G h goal s'"
  unfolding I_front_def
proof (intro impI allI, elim conjE)
  fix k assume nf: "\<not> found_path s'" and k: "opn s' k" "\<not> chk s' k"
  then have kc: "k \<noteq> cur" using assms(3) by auto
  with k assms(4) [of k] have "opn s k" "\<not> chk s k" by simp_all
  with assms(1) nf have "(dadd (gc s k) (hval G h goal k), k) \<in> set (openlist s)"
    by (simp add: I_front_def assms(6))
  with kc show "(dadd (gc s' k) (hval G h goal k), k) \<in> set (openlist s')"
    by (simp add: assms(2,5))
qed

lemma I_tree_mono:
  assumes "I_tree G start s" "\<And>k. chk s' k \<or> opn s' k \<Longrightarrow> chk s k \<or> opn s k"
    "\<And>k. chk s k \<Longrightarrow> chk s' k" "par s' = par s" "gc s' = gc s"
  shows "I_tree G start s'"
  unfolding I_tree_def
proof (intro allI impI)
  fix k assume "chk s' k \<or> opn s' k"
  then have "chk s k \<or> opn s k" by (rule assms(2))
  with assms(1) obtain pa where "chain G s start k pa"
    by (auto simp: I_tree_def)
  then have "chain G s' start k pa"
    by (rule chain_mono) (simp_all add: assms(3,4,5))
  then show "\<exists>p. chain G s' start k p" ..
qed

lemma inv_pop_stale:
  assumes inv: "search_inv G h start goal {} s" and cur: "chk s cur"
  shows "search_inv G h start goal {} (s\<lparr>openlist := remove1 (p, cur) (openlist s)\<rparr>)"
proof -
  let ?s' = "s\<lparr>openlist := remove1 (p, cur) (openlist s)\<rparr>"
  from inv have base: "I_base G start goal s" and qu: "I_queue G h goal s"
    and fr: "I_front G h goal s" and rl: "I_relaxed G {} s" and tr: "I_tree G start s"
    by (simp_all add: search_inv_def)
  have 1: "I_base G start goal ?s'"
    using base by (simp add: I_base_def)
  have 2: "I_queue G h goal ?s'"
    by (rule I_queue_remove1 [OF qu]) simp_all
  have 3: "I_front G h goal ?s'"
    by (rule I_front_remove1 [OF fr, where p = p and cur = cur]) (simp_all add: cur)
  have 4: "I_relaxed G {} ?s'"
    using rl by (simp add: I_relaxed_def)
  have 5: "I_tree G start ?s'"
    by (rule I_tree_mono [OF tr]) simp_all
  from 1 2 3 4 5 show ?thesis by (simp add: search_inv_def)
qed

lemma inv_pop_goal:
  assumes inv: "search_inv G h start goal {} s" and q: "(p, goal) \<in> set (openlist s)"
  shows "search_inv G h start goal {}
     (s\<lparr>openlist := remove1 (p, goal) (openlist s), found_path := True\<rparr>)"
proof -
  let ?s' = "s\<lparr>openlist := remove1 (p, goal) (openlist s), found_path := True\<rparr>"
  from inv have base: "I_base G start goal s" and qu: "I_queue G h goal s"
    and fr: "I_front G h goal s" and rl: "I_relaxed G {} s" and tr: "I_tree G start s"
    by (simp_all add: search_inv_def)
  have "chk s goal \<or> opn s goal"
    using qu q unfolding I_queue_def by blast
  then have "opn s goal"
    using base by (simp add: I_base_def)
  then have 1: "I_base G start goal ?s'"
    using base by (simp add: I_base_def)
  have 2: "I_queue G h goal ?s'"
    by (rule I_queue_remove1 [OF qu]) simp_all
  have 3: "I_front G h goal ?s'"
    by (simp add: I_front_def)
  have 4: "I_relaxed G {} ?s'"
    using rl by (simp add: I_relaxed_def)
  have 5: "I_tree G start ?s'"
    by (rule I_tree_mono [OF tr]) simp_all
  from 1 2 3 4 5 show ?thesis by (simp add: search_inv_def)
qed

lemma inv_pop_mark:
  assumes inv: "search_inv G h start goal {} s" and q: "(p, cur) \<in> set (openlist s)"
    and cv: "map_of (graph s) cur = Some cv" and cur: "cur \<noteq> goal"
    and nf: "\<not> found_path s"
  shows "search_inv G h start goal ({cur} \<times> set (edges_of G cur))
     (s\<lparr>graph := AList.map_entry cur mark_checked (graph s),
        openlist := remove1 (p, cur) (openlist s)\<rparr>)"
proof -
  let ?s' = "s\<lparr>graph := AList.map_entry cur mark_checked (graph s),
        openlist := remove1 (p, cur) (openlist s)\<rparr>"
  from inv have base: "I_base G start goal s" and qu: "I_queue G h goal s"
    and fr: "I_front G h goal s" and rl: "I_relaxed G {} s" and tr: "I_tree G start s"
    by (simp_all add: search_inv_def)
  have v: "chk ?s' = (chk s)(cur := True)" "opn ?s' = (opn s)(cur := False)"
    "gc ?s' = gc s" "par ?s' = par s"
    by (simp_all add: views_mark [OF cv])
  have seen: "chk s cur \<or> opn s cur"
    using qu q unfolding I_queue_def by blast
  have "shape G (graph s)" using base by (simp add: I_base_def)
  then have "shape G (AList.map_entry cur mark_checked (graph s))"
    by (rule shape_map_entry) (simp add: mark_checked_def)
  then have 1: "I_base G start goal ?s'"
    using base cur nf unfolding I_base_def v by simp
  have 2: "I_queue G h goal ?s'"
    by (rule I_queue_remove1 [OF qu, where x = "(p, cur)"])
      (auto simp: views_mark [OF cv] split: if_splits)
  have 3: "I_front G h goal ?s'"
    by (rule I_front_remove1 [OF fr, where p = p and cur = cur])
      (simp_all add: views_mark [OF cv])
  have 4: "I_relaxed G ({cur} \<times> set (edges_of G cur)) ?s'"
    unfolding I_relaxed_def v
  proof (intro allI impI, elim conjE)
    fix x e
    assume x: "((chk s)(cur := True)) x" "e \<in> set (edges_of G x)"
      "(x, e) \<notin> {cur} \<times> set (edges_of G cur)"
    then have "x \<noteq> cur" by auto
    with x rl have "chk s (dst e) \<or> opn s (dst e) \<and> gc s (dst e) \<le> dadd (gc s x) (cost e)"
      by (simp add: I_relaxed_def)
    then show "((chk s)(cur := True)) (dst e) \<or>
        ((opn s)(cur := False)) (dst e) \<and> gc s (dst e) \<le> dadd (gc s x) (cost e)"
      by auto
  qed
  have 5: "I_tree G start ?s'"
  proof (rule I_tree_mono [OF tr])
    fix k assume "chk ?s' k \<or> opn ?s' k"
    then show "chk s k \<or> opn s k"
      unfolding v using seen by (cases "k = cur") simp_all
  qed (simp_all add: views_mark [OF cv])
  from 1 2 3 4 5 show ?thesis by (simp add: search_inv_def)
qed

lemma inv_step:
  assumes inv: "search_inv G h start goal {} s" and c: "search_cond s"
    and ok: "graph_ok G" and goal: "map_of G goal \<noteq> None"
  shows "search_inv G h start goal {} (search_step tb h goal s)"
proof -
  from inv have sh: "shape G (graph s)" and qu: "I_queue G h goal s"
    by (simp_all add: search_inv_def I_base_def)
  from c have ne: "openlist s \<noteq> []" and nf: "\<not> found_path s"
    by (simp_all add: search_cond_def)
  show ?thesis
  proof (cases rule: search_step_cases [of tb s h goal])
    case Empty
    with get_nonempty [OF ne, of tb] show ?thesis by simp
  next
    case (Dangling cur q)
    from Dangling(1) obtain p where "(p, cur) \<in> set (openlist s)" by (rule get_Some)
    with qu have "map_of G cur \<noteq> None" by (auto simp: I_queue_def)
    with Dangling(2) shape_None [OF sh] show ?thesis by simp
  next
    case (Stale cur q cv)
    from Stale(1) obtain p where "q = remove1 (p, cur) (openlist s)" by (rule get_Some)
    moreover have "chk s cur" using Stale(2,3) by (simp add: chk_def)
    ultimately show ?thesis
      unfolding Stale(4) using inv by (simp add: inv_pop_stale)
  next
    case (Goal cur q cv)
    from Goal(1) obtain p where "q = remove1 (p, cur) (openlist s)" "(p, cur) \<in> set (openlist s)"
      by (rule get_Some)
    then show ?thesis
      unfolding Goal(5) using inv Goal(4) by (simp add: inv_pop_goal)
  next
    case (Expand cur q cv)
    from Expand(1) obtain p where p: "q = remove1 (p, cur) (openlist s)"
      "(p, cur) \<in> set (openlist s)"
      by (rule get_Some)
    let ?s1 = "s\<lparr>graph := AList.map_entry cur mark_checked (graph s), openlist := q\<rparr>"
    have es: "edges_to cv = edges_of G cur"
      using shape_Some [OF sh Expand(2)] by (auto simp: edges_of_def)
    have "search_inv G h start goal ({cur} \<times> set (edges_to cv)) ?s1"
      unfolding p(1) es using inv p(2) Expand(2,4) nf by (rule inv_pop_mark)
    moreover have "chk ?s1 cur"
      by (simp add: views_mark [OF Expand(2)])
    ultimately show ?thesis
      unfolding Expand(5) using ok goal by (intro inv_fold_relax) (simp_all add: es)
  qed
qed

text \<open>
  When no sum is rounded, the sums the search has formed are the sums of real numbers.
\<close>

lemma inv_start:
  assumes "search_inv G h start goal P s"
  shows "map_of G start \<noteq> None" "gc s start = 0"
proof -
  from assms have base: "I_base G start goal s"
    by (simp add: search_inv_def)
  then have "map_of (graph s) start \<noteq> None"
    by (auto simp: I_base_def chk_def split: option.splits)
  moreover from base have "shape G (graph s)"
    by (simp add: I_base_def)
  ultimately show "map_of G start \<noteq> None"
    by (simp add: shape_None)
  from base show "gc s start = 0"
    by (simp add: I_base_def)
qed

lemma exact_f:
  assumes inv: "search_inv G h start goal P s" and ok: "graph_ok G"
    and ex: "exact_sums G h start goal" and seen: "chk s k \<or> opn s k"
  shows "dadd (gc s k) (hval G h goal k) = gc s k + hval G h goal k"
proof -
  from inv seen obtain p where p: "chain G s start k p"
    by (auto simp: search_inv_def I_tree_def)
  note st = inv_start [OF inv]
  from chain_path [OF p ok st(1)] chain_nonempty [OF p]
  have "is_path G p \<and> hd p = start \<and> distinct p" "last p = k"
    by simp_all
  with ex have "representable (path_cost G p + hval G h goal k)"
    unfolding exact_sums_def by blast
  then show ?thesis
    unfolding chain_cost [OF p ok st(1) ex st(2)] by (simp add: representable_def dadd_def)
qed

lemma exact_g:
  assumes inv: "search_inv G h start goal P s" and ok: "graph_ok G"
    and ex: "exact_sums G h start goal" and x: "chk s x" and e: "e \<in> set (edges_of G x)"
    and y: "\<not> chk s (dst e)"
  shows "dadd (gc s x) (cost e) = gc s x + cost e"
proof -
  from inv x obtain p where p: "chain G s start x p"
    by (auto simp: search_inv_def I_tree_def)
  note st = inv_start [OF inv]
  note ne = chain_nonempty [OF p]
  note pa = chain_path [OF p ok st(1)]
  have ny: "dst e \<notin> set p"
    using chain_set [OF p, of "dst e"] x y by auto
  have "is_path G (p @ [dst e])"
    using pa ne edges_of_ok(1,3) [OF ok e] by (intro is_path_snoc) simp_all
  moreover have "hd (p @ [dst e]) = start" "distinct (p @ [dst e])"
    using ne pa ny by simp_all
  ultimately have "representable (path_cost G (p @ [dst e]))"
    using ex unfolding exact_sums_def by blast
  moreover have "path_cost G (p @ [dst e]) = gc s x + cost e"
    using ne chain_cost [OF p ok st(1) ex st(2)] edges_of_ok(4) [OF ok e]
    by (simp add: path_cost_snoc)
  ultimately show ?thesis
    by (simp add: representable_def dadd_def)
qed

lemma pop_time:
  assumes inv: "search_inv G h start goal {} s" and opt: "I_opt G start goal s"
    and nf: "\<not> found_path s" and q: "(p, cur) \<in> set (openlist s)"
    and least: "\<forall>e \<in> set (openlist s). p \<le> fst e" and nc: "\<not> chk s cur"
    and cons: "consistent G h goal" and ok: "graph_ok G"
    and ex: "exact_sums G h start goal"
    and path: "is_path G pth" "hd pth = start" "last pth = cur"
  shows "gc s cur \<le> path_cost G pth"
proof -
  from inv have base: "I_base G start goal s" and qu: "I_queue G h goal s"
    and fr: "I_front G h goal s" and rl: "I_relaxed G {} s"
    by (simp_all add: search_inv_def)
  have "chk s (hd pth)" using base path(2) by (simp add: I_base_def)
  moreover have "\<not> chk s (last pth)" using nc path(3) by simp
  ultimately obtain q1 x y q2 where split: "pth = q1 @ x # y # q2" and x: "chk s x"
    and y: "\<not> chk s y"
    using first_change [of "chk s" pth] is_path_nonempty [OF path(1)] by blast
  have p1: "is_path G (q1 @ [x])" and p2: "is_path G (x # y # q2)"
    using path(1) unfolding split by (simp_all add: is_path_append [of G q1 x "y # q2"])
  then have xy: "has_edge G x y" and p3: "is_path G (y # q2)"
    by simp_all
  have "hd (q1 @ [x]) = start"
    using path(2) unfolding split by (cases q1) simp_all
  with opt x p1 have gx: "gc s x \<le> path_cost G (q1 @ [x])"
    unfolding I_opt_def by (metis last_snoc)
  from has_edge_edges_of [OF xy] obtain e where e: "e \<in> set (edges_of G x)" "dst e = y"
    by blast
  have ec: "edge_cost G x y = cost e"
    using edges_of_ok(4) [OF ok e(1)] e(2) by simp
  from rl x e y have oy: "opn s y" and gy': "gc s y \<le> dadd (gc s x) (cost e)"
    unfolding I_relaxed_def by auto
  from gy' exact_g [OF inv ok ex x e(1)] y e(2) have gy: "gc s y \<le> gc s x + cost e"
    by simp
  from fr nf oy y have "(dadd (gc s y) (hval G h goal y), y) \<in> set (openlist s)"
    by (simp add: I_front_def)
  with least have "p \<le> dadd (gc s y) (hval G h goal y)"
    by fastforce
  with exact_f [OF inv ok ex, of y] oy have py: "p \<le> gc s y + hval G h goal y"
    by simp
  from qu q nc have "opn s cur" "dadd (gc s cur) (hval G h goal cur) \<le> p"
    unfolding I_queue_def by fastforce+
  with exact_f [OF inv ok ex, of cur] have pc: "gc s cur + hval G h goal cur \<le> p"
    by simp
  have "last (y # q2) = cur"
    using path(3) unfolding split by simp
  with consistent_path [OF cons p3] have hy: "hval G h goal y \<le> path_cost G (y # q2) + hval G h goal cur"
    by simp
  have "path_cost G pth = path_cost G (q1 @ [x]) + (edge_cost G x y + path_cost G (y # q2))"
    unfolding split by (simp add: path_cost_append [of G q1 x "y # q2"])
  with gx ec gy py pc hy show ?thesis
    by linarith
qed

lemma opt_step:
  assumes inv: "search_inv G h start goal {} s" and opt: "I_opt G start goal s"
    and c: "search_cond s" and cons: "consistent G h goal" and ok: "graph_ok G"
    and ex: "exact_sums G h start goal"
  shows "I_opt G start goal (search_step tb h goal s)"
proof -
  from c have nf: "\<not> found_path s"
    by (simp add: search_cond_def)
  show ?thesis
  proof (cases rule: search_step_cases [of tb s h goal])
    case Empty
    then show ?thesis using opt by (simp add: I_opt_def)
  next
    case (Dangling cur q)
    then show ?thesis using opt by (simp add: I_opt_def)
  next
    case (Stale cur q cv)
    then show ?thesis using opt by (simp add: I_opt_def)
  next
    case (Goal cur q cv)
    from Goal(1) obtain p where p: "(p, cur) \<in> set (openlist s)"
      "\<forall>e \<in> set (openlist s). p \<le> fst e"
      by (rule get_Some)
    have nc: "\<not> chk s cur" using Goal(2,3) by (simp add: chk_def)
    have "gc s goal \<le> path_cost G pth" if "is_path G pth" "hd pth = start" "last pth = goal"
      for pth
      using pop_time [OF inv opt nf p nc cons ok ex that(1,2)] that(3) Goal(4) by simp
    then show ?thesis
      unfolding Goal(5) using opt by (auto simp: I_opt_def)
  next
    case (Expand cur q cv)
    from Expand(1) obtain p where p: "(p, cur) \<in> set (openlist s)"
      "\<forall>e \<in> set (openlist s). p \<le> fst e"
      by (rule get_Some)
    have nc: "\<not> chk s cur" using Expand(2,3) by (simp add: chk_def)
    let ?s1 = "s\<lparr>graph := AList.map_entry cur mark_checked (graph s), openlist := q\<rparr>"
    let ?s' = "search_step tb h goal s"
    note vm = views_mark [OF Expand(2)]
    have v: "chk ?s' = (chk s)(cur := True)" "found_path ?s' = False"
      unfolding Expand(5) using nf by (simp_all add: fold_relax_chk fold_relax_found vm)
    have g: "gc ?s' x = gc s x" if "chk ?s' x" for x
    proof -
      from that have "chk ?s1 x" by (simp add: v vm)
      then have "gc ?s' x = gc ?s1 x"
        unfolding Expand(5) by (rule fold_relax_gc_checked)
      then show ?thesis by (simp add: vm)
    qed
    show ?thesis
      unfolding I_opt_def
    proof (intro allI impI, elim conjE)
      fix x pth
      assume a: "chk ?s' x \<or> found_path ?s' \<and> x = goal" "is_path G pth" "hd pth = start"
        "last pth = x"
      then have cx: "chk ?s' x" by (simp add: v)
      have "gc s x \<le> path_cost G pth"
      proof (cases "x = cur")
        case True
        with pop_time [OF inv opt nf p nc cons ok ex a(2,3)] a(4) show ?thesis by simp
      next
        case False
        with cx have "chk s x" by (simp add: v)
        with opt a show ?thesis unfolding I_opt_def by blast
      qed
      with g [OF cx] show "gc ?s' x \<le> path_cost G pth" by simp
    qed
  qed
qed

section \<open>Termination\<close>

lemma n_unchecked_map_entry:
  assumes "\<And>v. is_checked (f v) = is_checked v"
  shows "n_unchecked (AList.map_entry k f g) = n_unchecked g"
  by (induction g) (auto simp: n_unchecked_def assms)

lemma n_unchecked_mark:
  assumes "map_of g k = Some v" "\<not> is_checked v"
  shows "n_unchecked (AList.map_entry k mark_checked g) < n_unchecked g"
  using assms by (induction g) (auto simp: n_unchecked_def mark_checked_def split: if_splits)

lemma n_unchecked_relax: "n_unchecked (graph (relax h goal cur e s)) = n_unchecked (graph s)"
  by (cases rule: relax_cases [of s cur e goal h])
    (simp_all add: n_unchecked_map_entry reach_def)

lemma n_unchecked_fold_relax:
  "n_unchecked (graph (fold (relax h goal cur) es s)) = n_unchecked (graph s)"
  by (induction es arbitrary: s) (simp_all add: n_unchecked_relax)

lemma search_step_decreases:
  assumes "search_cond s"
  shows "(search_step tb h goal s, s) \<in>
     inv_image (less_than <*lex*> less_than)
       (\<lambda>s. (n_unchecked (graph s), length (openlist s) + (if invalid s then 0 else 1)))"
proof (cases rule: search_step_cases [of tb s h goal])
  case Empty
  then show ?thesis using assms by (simp add: search_cond_def)
next
  case (Dangling cur q)
  from Dangling(1) obtain p where "q = remove1 (p, cur) (openlist s)" "(p, cur) \<in> set (openlist s)"
    by (rule get_Some)
  then show ?thesis
    unfolding Dangling(3) using length_remove1_less [of "(p, cur)" "openlist s"] by simp
next
  case (Stale cur q cv)
  from Stale(1) obtain p where "q = remove1 (p, cur) (openlist s)" "(p, cur) \<in> set (openlist s)"
    by (rule get_Some)
  then show ?thesis
    unfolding Stale(4) using length_remove1_less [of "(p, cur)" "openlist s"] by simp
next
  case (Goal cur q cv)
  from Goal(1) obtain p where "q = remove1 (p, cur) (openlist s)" "(p, cur) \<in> set (openlist s)"
    by (rule get_Some)
  then show ?thesis
    unfolding Goal(5) using length_remove1_less [of "(p, cur)" "openlist s"] by simp
next
  case (Expand cur q cv)
  show ?thesis
    unfolding Expand(5) using n_unchecked_mark [OF Expand(2,3)]
    by (simp add: n_unchecked_fold_relax)
qed

lemma search_terminates:
  "\<exists>t. while_option search_cond (search_step tb h goal) s = Some t"
proof (rule wf_while_option_Some [where P = "\<lambda>s. True"])
  show "wf {(t, s). (True \<and> search_cond s) \<and> t = search_step tb h goal s}"
  proof (rule wf_subset)
    show "wf (inv_image (less_than <*lex*> less_than)
       (\<lambda>s :: 'a search_state. (n_unchecked (graph s), length (openlist s) + (if invalid s then 0 else 1))))"
      by (intro wf_inv_image wf_lex_prod wf_less_than)
    show "{(t, s). (True \<and> search_cond s) \<and> t = search_step tb h goal s} \<subseteq>
      inv_image (less_than <*lex*> less_than)
       (\<lambda>s. (n_unchecked (graph s), length (openlist s) + (if invalid s then 0 else 1)))"
    proof
      fix x assume "x \<in> {(t, s). (True \<and> search_cond s) \<and> t = search_step tb h goal s}"
      then obtain s where x: "x = (search_step tb h goal s, s)" and c: "search_cond s"
        by auto
      show "x \<in> inv_image (less_than <*lex*> less_than)
       (\<lambda>s. (n_unchecked (graph s), length (openlist s) + (if invalid s then 0 else 1)))"
        unfolding x using c by (rule search_step_decreases)
    qed
  qed
qed simp_all

section \<open>Graphs of one shape have the same paths\<close>

lemma shape_refl: "shape G G"
  by (auto simp: shape_def split: option.splits)

lemma shape_Reset: "shape G (ResetAllVertices G)"
  by (auto simp: shape_def map_of_ResetAllVertices ClearVertexSearchInfo_def split: option.splits)

lemma has_edge_shape: "shape G g \<Longrightarrow> has_edge g u w = has_edge G u w"
  unfolding shape_def has_edge_def by (erule allE [of _ u]) (auto split: option.splits)

lemma edge_cost_shape: "shape G g \<Longrightarrow> edge_cost g u w = edge_cost G u w"
  unfolding shape_def edge_cost_def by (erule allE [of _ u]) (auto split: option.splits)

lemma is_path_shape: "shape G g \<Longrightarrow> is_path g p = is_path G p"
proof (induction g p rule: is_path.induct)
  case (2 g v)
  then show ?case by (simp add: shape_None)
qed (simp_all add: has_edge_shape)

lemma path_cost_shape: "shape G g \<Longrightarrow> path_cost g p = path_cost G p"
  by (induction g p rule: path_cost.induct) (simp_all add: edge_cost_shape)

lemma path_states_shape: "shape G g \<Longrightarrow> path_states g p = path_states G p"
proof (induction p)
  case (Cons k p)
  show ?case
  proof (cases "map_of g k")
    case None
    with shape_None [OF Cons.prems, of k] show ?thesis by simp
  next
    case (Some v)
    from shape_Some [OF Cons.prems Some] obtain v0 where
      "map_of G k = Some v0" "state v = state v0"
      by blast
    with Some Cons show ?thesis by (simp split: sum.splits)
  qed
qed simp

lemma hval_shape: "shape G g \<Longrightarrow> hval g h goal k = hval G h goal k"
proof -
  assume s: "shape G g"
  have "map_option state (map_of g j) = map_option state (map_of G j)" for j
    using s unfolding shape_def by (erule_tac x = j in allE) (auto split: option.splits)
  from this [of k] this [of goal] show ?thesis
    by (auto simp: hval_def split: option.splits)
qed

lemma reachable_shape: "shape G g \<Longrightarrow> reachable g a b = reachable G a b"
  by (simp add: reachable_def is_path_shape)

lemma consistent_shape: "shape G g \<Longrightarrow> consistent g h goal = consistent G h goal"
  by (simp add: consistent_def has_edge_shape edge_cost_shape hval_shape)

lemma exact_sums_shape: "shape G g \<Longrightarrow> exact_sums g h a b = exact_sums G h a b"
  by (simp add: exact_sums_def is_path_shape path_cost_shape hval_shape)

lemma graph_ok_Reset: "graph_ok g \<Longrightarrow> graph_ok (ResetAllVertices g)"
proof -
  assume ok: "graph_ok g"
  have "map fst (ResetAllVertices g) = map fst g"
    by (simp add: ResetAllVertices_def comp_def case_prod_unfold)
  with ok show ?thesis
    unfolding graph_ok_iff
    by (auto simp: map_of_ResetAllVertices ClearVertexSearchInfo_def)
qed

section \<open>The first iteration\<close>

lemma search_loop_same:
  assumes "map_of g v = Some x" "\<not> is_checked x"
  shows "search_loop tb g v v h = Some ((search_init g v v)\<lparr>openlist := [], found_path := True\<rparr>)"
proof -
  let ?s0 = "search_init g v v"
  let ?s1 = "?s0\<lparr>openlist := [], found_path := True\<rparr>"
  have g0: "map_of (graph ?s0) v = Some (x\<lparr>is_in_openlist := True, g_cost := 0\<rparr>)"
    by (simp add: search_init_def map_of_map_entry assms)
  have q0: "openlist ?s0 = [(0, v)]"
    by (simp add: search_init_def put_def)
  have s1: "search_step tb h v ?s0 = ?s1"
    by (simp add: search_step_def q0 get_single g0 assms)
  have c0: "search_cond ?s0"
    by (simp add: search_cond_def search_init_def put_def assms)
  have c1: "\<not> search_cond ?s1"
    by (simp add: search_cond_def)
  show ?thesis
    unfolding search_loop_def
    by (subst while_option_unfold, simp only: c0 if_True s1,
        subst while_option_unfold, simp only: c1 if_False)
qed

lemma init_step:
  assumes ok: "graph_ok G"
    and fresh: "\<forall>k v. map_of G k = Some v \<longrightarrow> \<not> is_checked v \<and> \<not> is_in_openlist v"
    and st: "map_of G start = Some sv" and gl: "map_of G goal \<noteq> None" and ne: "start \<noteq> goal"
  shows "search_cond (search_init G start goal)"
    and "search_inv G h start goal {} (search_step tb h goal (search_init G start goal))"
    and "consistent G h goal \<Longrightarrow>
         I_opt G start goal (search_step tb h goal (search_init G start goal))"
proof -
  let ?s0 = "search_init G start goal"
  let ?sv = "sv\<lparr>is_in_openlist := True, g_cost := 0\<rparr>"
  let ?g0 = "AList.map_entry start (\<lambda>v. v\<lparr>is_in_openlist := True, g_cost := 0\<rparr>) G"
  let ?m = "?s0\<lparr>graph := AList.map_entry start mark_checked (graph ?s0), openlist := []\<rparr>"
  have g0: "graph ?s0 = ?g0" and q0: "openlist ?s0 = [(0, start)]"
    and f0: "\<not> found_path ?s0" "\<not> invalid ?s0"
    using st gl by (simp_all add: search_init_def put_def)
  show c: "search_cond ?s0"
    by (simp add: search_cond_def q0 f0)
  have m0: "map_of (graph ?s0) start = Some ?sv"
    by (simp add: g0 map_of_map_entry st)
  have nc: "\<not> is_checked ?sv"
    using fresh st by simp
  have step: "search_step tb h goal ?s0 = fold (relax h goal start) (edges_to ?sv) ?m"
    by (simp add: search_step_def q0 get_single m0 nc ne)
  have mk: "map_of (AList.map_entry start mark_checked (graph ?s0)) k =
      (if k = start then Some (mark_checked ?sv) else map_of G k)" for k
    by (simp add: g0 map_of_map_entry st)
  let ?mg = "?s0\<lparr>graph := AList.map_entry start mark_checked (graph ?s0)\<rparr>"
  have vm: "chk ?mg k = (k = start)" "opn ?mg k = False" "gc ?mg start = 0" for k
    using fresh by (auto simp: chk_def opn_def gc_def mk mark_checked_def split: option.splits)
  have "shape G ?g0"
    by (rule shape_map_entry [OF shape_refl]) simp
  then have "shape G (AList.map_entry start mark_checked ?g0)"
    by (rule shape_map_entry) (simp add: mark_checked_def)
  then have sh: "shape G (graph ?m)"
    by (simp add: g0)
  have 1: "I_base G start goal ?m"
    unfolding I_base_def using sh ne f0 by (simp add: vm)
  have 2: "I_queue G h goal ?m"
    by (simp add: I_queue_def)
  have 3: "I_front G h goal ?m"
    by (simp add: I_front_def vm)
  have 4: "I_relaxed G ({start} \<times> set (edges_of G start)) ?m"
    by (simp add: I_relaxed_def vm)
  have 5: "I_tree G start ?m"
    unfolding I_tree_def by (auto simp: vm intro: chain_start)
  have inv: "search_inv G h start goal ({start} \<times> set (edges_of G start)) ?m"
    using 1 2 3 4 5 by (simp add: search_inv_def)
  have es: "edges_to ?sv = edges_of G start"
    by (simp add: edges_of_def st)
  show "search_inv G h start goal {} (search_step tb h goal ?s0)"
    unfolding step es using inv ok gl by (intro inv_fold_relax) (simp_all add: vm)
  show "I_opt G start goal (search_step tb h goal ?s0)" if cons: "consistent G h goal"
    unfolding I_opt_def
  proof (intro allI impI, elim conjE)
    fix x pth
    let ?s1 = "search_step tb h goal ?s0"
    assume a: "chk ?s1 x \<or> found_path ?s1 \<and> x = goal" "is_path G pth" "hd pth = start"
      "last pth = x"
    have "found_path ?s1 = False" "chk ?s1 = chk ?m"
      unfolding step using f0 by (simp_all add: fold_relax_found fold_relax_chk)
    with a(1) have x: "x = start" by (simp add: vm)
    have "gc ?s1 start = gc ?m start"
      unfolding step by (rule fold_relax_gc_checked) (simp add: vm)
    then have "gc ?s1 x = 0" by (simp add: x vm)
    moreover have "0 \<le> path_cost G pth"
      using consistent_path [OF cons a(2)] a(3,4) x by simp
    ultimately show "gc ?s1 x \<le> path_cost G pth" by simp
  qed
qed

lemma search_loop_main:
  assumes ok: "graph_ok G"
    and fresh: "\<forall>k v. map_of G k = Some v \<longrightarrow> \<not> is_checked v \<and> \<not> is_in_openlist v"
    and st: "map_of G start = Some sv" and gl: "map_of G goal \<noteq> None" and ne: "start \<noteq> goal"
  shows "\<exists>t. search_loop tb G start goal h = Some t \<and> search_inv G h start goal {} t \<and>
     \<not> search_cond t \<and>
     (consistent G h goal \<and> exact_sums G h start goal \<longrightarrow> I_opt G start goal t)"
proof -
  let ?s0 = "search_init G start goal"
  let ?s1 = "search_step tb h goal ?s0"
  note init = init_step [OF ok fresh st gl ne]
  obtain t where t: "while_option search_cond (search_step tb h goal) ?s1 = Some t"
    using search_terminates by blast
  have loop: "search_loop tb G start goal h = Some t"
    unfolding search_loop_def by (subst while_option_unfold) (simp add: init(1) t)
  have inv: "search_inv G h start goal {} t"
    by (rule while_option_rule [where P = "search_inv G h start goal {}", OF _ t
          init(2) [where h = h and tb = tb]])
      (rule inv_step [OF _ _ ok gl])
  have opt: "I_opt G start goal t" if cons: "consistent G h goal"
    and ex: "exact_sums G h start goal"
  proof -
    have "search_inv G h start goal {} t \<and> I_opt G start goal t"
    proof (rule while_option_rule [where
          P = "\<lambda>s. search_inv G h start goal {} s \<and> I_opt G start goal s", OF _ t])
      show "search_inv G h start goal {} ?s1 \<and> I_opt G start goal ?s1"
        using init(2) [where h = h and tb = tb] init(3) [OF cons, where tb = tb] by simp
    next
      fix s assume "search_inv G h start goal {} s \<and> I_opt G start goal s" "search_cond s"
      then show "search_inv G h start goal {} (search_step tb h goal s) \<and>
          I_opt G start goal (search_step tb h goal s)"
        using inv_step [OF _ _ ok gl] opt_step [OF _ _ _ cons ok ex] by blast
    qed
    then show ?thesis by simp
  qed
  from loop inv opt while_option_stop [OF t] show ?thesis by blast
qed

lemma found_iff_reachable:
  assumes inv: "search_inv G h start goal {} t" and stop: "\<not> search_cond t"
    and ok: "graph_ok G" and st: "map_of G start \<noteq> None"
  shows "found_path t \<longleftrightarrow> reachable G start goal"
proof
  assume "found_path t"
  with inv have "opn t goal" by (simp add: search_inv_def I_base_def)
  with inv obtain p where p: "chain G t start goal p"
    by (auto simp: search_inv_def I_tree_def)
  from chain_path [OF p ok st] chain_nonempty [OF p] show "reachable G start goal"
    by (auto simp: reachable_def)
next
  assume "reachable G start goal"
  then obtain p where p: "is_path G p" "hd p = start" "last p = goal"
    by (auto simp: reachable_def)
  show "found_path t"
  proof (rule ccontr)
    assume nf: "\<not> found_path t"
    from inv have base: "I_base G start goal t" and fr: "I_front G h goal t"
      and rl: "I_relaxed G {} t"
      by (simp_all add: search_inv_def)
    from stop nf base have e: "openlist t = []"
      by (simp add: search_cond_def I_base_def)
    have "chk t (hd p)" "\<not> chk t (last p)"
      using base p by (simp_all add: I_base_def)
    then obtain q1 x y q2 where split: "p = q1 @ x # y # q2" and x: "chk t x" and y: "\<not> chk t y"
      using first_change [of "chk t" p] is_path_nonempty [OF p(1)] by blast
    have "is_path G (x # y # q2)"
      using p(1) unfolding split by (simp add: is_path_append [of G q1 x "y # q2"])
    then have "has_edge G x y" by simp
    from has_edge_edges_of [OF this] obtain e where "e \<in> set (edges_of G x)" "dst e = y"
      by blast
    with rl x y have "opn t y" unfolding I_relaxed_def by auto
    with fr nf y have "(dadd (gc t y) (hval G h goal y), y) \<in> set (openlist t)"
      by (simp add: I_front_def)
    with e show False by simp
  qed
qed

section \<open>The result of Search\<close>

lemma found_result:
  assumes inv: "search_inv G h start goal {} t" and f: "found_path t"
    and ok: "graph_ok G" and st: "map_of G start \<noteq> None"
  shows "\<exists>p path. finish start goal (Some t) = Some (Inr path) \<and> path \<noteq> [] \<and>
     path_states G p = Inr path \<and> is_path G p \<and> hd p = start \<and> last p = goal \<and>
     (exact_sums G h start goal \<longrightarrow> path_cost G p = gc t goal)"
proof -
  from inv have base: "I_base G start goal t" and tr: "I_tree G start t"
    by (simp_all add: search_inv_def)
  from base f have "opn t goal" and ni: "\<not> invalid t" and sh: "shape G (graph t)"
    and g0: "gc t start = 0"
    by (simp_all add: I_base_def)
  with tr obtain p where p: "chain G t start goal p"
    by (auto simp: I_tree_def)
  note ne = chain_nonempty [OF p]
  note pa = chain_path [OF p ok st]
  have "p = start # tl p"
    using ne by (cases p) auto
  then have "rev (rev (tl p) @ [start]) = p"
    by simp
  then have rp: "ReconstructPath (graph t) start goal = Some (Inr p)"
    unfolding ReconstructPath_def
    using ReconstructPath_chain [OF p, of "[]"] by simp
  from is_path_dom [OF pa [THEN conjunct1] ok] path_states_Inr [of p G]
  obtain path where path: "path_states G p = Inr path" "length path = length p"
    by blast
  have "path_states (graph t) p = Inr path"
    using path(1) by (simp add: path_states_shape [OF sh])
  then have "finish start goal (Some t) = Some (Inr path)"
    using ni f rp by (simp add: finish_def)
  moreover have "path \<noteq> []"
    using path(2) ne by auto
  moreover have "path_cost G p = gc t goal" if "exact_sums G h start goal"
    using chain_cost [OF p ok st that g0] .
  ultimately show ?thesis
    using path(1) pa ne by auto
qed

lemma Search_same_aux:
  assumes "FindVertex g v = Some x"
  shows "Search tb g v v h = Some (Inr [state x])"
proof -
  let ?g0 = "ResetAllVertices g"
  let ?s1 = "(search_init ?g0 v v)\<lparr>openlist := [], found_path := True\<rparr>"
  have r: "map_of ?g0 v = Some (ClearVertexSearchInfo x)"
    using assms by (simp add: map_of_ResetAllVertices FindVertex_def)
  have loop: "search_loop tb ?g0 v v h = Some ?s1"
    by (rule search_loop_same [OF r]) (simp add: ClearVertexSearchInfo_def)
  have "invalid ?s1 = False" "found_path ?s1 = True"
    by (simp_all add: search_init_def r)
  moreover have "path_states (graph ?s1) [v] = Inr [state x]"
    by (simp add: search_init_def map_of_map_entry r ClearVertexSearchInfo_def)
  ultimately have "finish v v (Some ?s1) = Some (Inr [state x])"
    by (simp add: finish_def ReconstructPath_start)
  then show ?thesis
    by (simp add: Search_def Let_def FindVertex_def r PerformSearch_def loop)
qed

lemma Search_result:
  assumes ok: "graph_ok g" and st: "FindVertex g start \<noteq> None"
    and gl: "FindVertex g goal \<noteq> None"
  shows "(\<not> reachable g start goal \<and> Search tb g start goal h = Some (Inr [])) \<or>
     (\<exists>path vs. Search tb g start goal h = Some (Inr path) \<and> path \<noteq> [] \<and>
        path_states g vs = Inr path \<and> is_path g vs \<and> hd vs = start \<and> last vs = goal \<and>
        (consistent g h goal \<and> exact_sums g h start goal \<longrightarrow>
           (\<forall>q. is_path g q \<and> hd q = start \<and> last q = goal \<longrightarrow>
                path_cost g vs \<le> path_cost g q)))"
proof (cases "start = goal")
  case True
  from st obtain x where x: "FindVertex g start = Some x" by auto
  have 1: "Search tb g start goal h = Some (Inr [state x])"
    using Search_same_aux [OF x] True by simp
  have 2: "path_states g [start] = Inr [state x]" "is_path g [start]"
    using x by (simp_all add: FindVertex_def)
  have 3: "path_cost g [start] \<le> path_cost g q"
    if "consistent g h goal" "is_path g q" "hd q = start" "last q = goal" for q
    using consistent_path [OF that(1,2)] that(3,4) True by simp
  have "\<exists>path vs. Search tb g start goal h = Some (Inr path) \<and> path \<noteq> [] \<and>
        path_states g vs = Inr path \<and> is_path g vs \<and> hd vs = start \<and> last vs = goal \<and>
        (consistent g h goal \<and> exact_sums g h start goal \<longrightarrow>
           (\<forall>q. is_path g q \<and> hd q = start \<and> last q = goal \<longrightarrow>
                path_cost g vs \<le> path_cost g q))"
    by (rule exI [of _ "[state x]"], rule exI [of _ "[start]"]) (use 1 2 3 True in auto)
  then show ?thesis ..
next
  case False
  let ?G = "ResetAllVertices g"
  have sh: "shape g ?G" by (rule shape_Reset)
  have okG: "graph_ok ?G" using ok by (rule graph_ok_Reset)
  have fresh: "\<forall>k v. map_of ?G k = Some v \<longrightarrow> \<not> is_checked v \<and> \<not> is_in_openlist v"
    by (auto simp: map_of_ResetAllVertices ClearVertexSearchInfo_def)
  from st gl obtain sv where sv: "map_of ?G start = Some sv" and gG: "map_of ?G goal \<noteq> None"
    by (auto simp: FindVertex_def map_of_ResetAllVertices)
  from search_loop_main [OF okG fresh sv gG False, of tb h] obtain t where
    t: "search_loop tb ?G start goal h = Some t" and inv: "search_inv ?G h start goal {} t"
    and stop: "\<not> search_cond t"
    and opt: "consistent ?G h goal \<and> exact_sums ?G h start goal \<longrightarrow> I_opt ?G start goal t"
    by blast
  have S: "Search tb g start goal h = finish start goal (Some t)"
    using sv gG by (simp add: Search_def Let_def FindVertex_def PerformSearch_def t)
  have stG: "map_of ?G start \<noteq> None" using sv by simp
  have fr: "found_path t \<longleftrightarrow> reachable g start goal"
    using found_iff_reachable [OF inv stop okG stG] by (simp add: reachable_shape [OF sh])
  show ?thesis
  proof (cases "found_path t")
    case True
    from found_result [OF inv True okG stG] obtain p path where
      r: "finish start goal (Some t) = Some (Inr path)" "path \<noteq> []"
        "path_states ?G p = Inr path" "is_path ?G p" "hd p = start" "last p = goal"
        "exact_sums ?G h start goal \<longrightarrow> path_cost ?G p = gc t goal"
      by blast
    have o: "path_cost g p \<le> path_cost g q"
      if "consistent g h goal" "exact_sums g h start goal" "is_path g q" "hd q = start"
        "last q = goal" for q
    proof -
      from that(2) have exG: "exact_sums ?G h start goal"
        by (simp add: exact_sums_shape [OF sh])
      with that(1) opt have "I_opt ?G start goal t"
        by (simp add: consistent_shape [OF sh])
      moreover have "is_path ?G q"
        using that(3) by (simp add: is_path_shape [OF sh])
      ultimately have "gc t goal \<le> path_cost ?G q"
        unfolding I_opt_def using True that(4,5) by blast
      with r(7) exG show ?thesis
        by (simp add: path_cost_shape [OF sh])
    qed
    have "\<exists>path vs. Search tb g start goal h = Some (Inr path) \<and> path \<noteq> [] \<and>
        path_states g vs = Inr path \<and> is_path g vs \<and> hd vs = start \<and> last vs = goal \<and>
        (consistent g h goal \<and> exact_sums g h start goal \<longrightarrow>
           (\<forall>q. is_path g q \<and> hd q = start \<and> last q = goal \<longrightarrow>
                path_cost g vs \<le> path_cost g q))"
      by (rule exI [of _ path], rule exI [of _ p])
        (use r o S in \<open>auto simp: path_states_shape [OF sh] is_path_shape [OF sh]\<close>)
    then show ?thesis ..
  next
    case False
    from inv have "\<not> invalid t" by (simp add: search_inv_def I_base_def)
    with False have "finish start goal (Some t) = Some (Inr [])"
      by (simp add: finish_def)
    with False fr S show ?thesis by simp
  qed
qed


section \<open>The zero heuristic\<close>

lemma edge_cost_nonneg:
  assumes "\<forall>e \<in> set (GetAllEdges g). 0 \<le> cost e"
  shows "0 \<le> edge_cost g u w"
proof (cases "map_of g u")
  case None
  then show ?thesis by (simp add: edge_cost_def)
next
  case (Some v)
  show ?thesis
  proof (cases "find (\<lambda>e. dst e = w) (edges_to v)")
    case None
    with Some show ?thesis by (simp add: edge_cost_def)
  next
    case (Some e)
    then have "e \<in> set (edges_to v)"
      by (auto simp: find_Some_iff)
    moreover have "(u, v) \<in> set g"
      using \<open>map_of g u = Some v\<close> by (rule map_of_SomeD)
    ultimately have "e \<in> set (GetAllEdges g)"
      by (auto simp: GetAllEdges_def)
    with assms Some \<open>map_of g u = Some v\<close> show ?thesis
      by (simp add: edge_cost_def)
  qed
qed

lemma path_cost_nonneg:
  assumes "\<forall>e \<in> set (GetAllEdges g). 0 \<le> cost e"
  shows "0 \<le> path_cost g p"
  using assms by (induction g p rule: path_cost.induct) (simp_all add: edge_cost_nonneg)

lemma hval_zero: "hval g (\<lambda>a b. 0) goal k = 0"
  by (simp add: hval_def split: option.splits)

lemma zero_consistent:
  "\<forall>e \<in> set (GetAllEdges g). 0 \<le> cost e \<Longrightarrow> consistent g (\<lambda>a b. 0) goal"
  by (simp add: consistent_def hval_zero edge_cost_nonneg)

lemma zero_admissible:
  "\<forall>e \<in> set (GetAllEdges g). 0 \<le> cost e \<Longrightarrow> admissible g (\<lambda>a b. 0) goal"
  by (simp add: admissible_def hval_zero path_cost_nonneg)

lemma scenario_ok: "graph_ok scenario"
  by (simp add: scenario_def graph_eval graph_ok_def)

lemma scenario_nonneg: "\<forall>e \<in> set (GetAllEdges scenario). 0 \<le> cost e"
  by (simp add: scenario_def graph_eval GetAllEdges_def)

lemma scenario_reachable: "reachable scenario 1 5"
proof -
  have "is_path scenario [1, 2, 3, 4, 5]"
    by (simp add: scenario_def graph_eval has_edge_def)
  then show ?thesis
    unfolding reachable_def by (intro exI [of _ "[1, 2, 3, 4, 5]"]) simp
qed

lemma path_states_states:
  "path_states g vs = Inr path \<Longrightarrow>
   list_all2 (\<lambda>k st. map_option state (FindVertex g k) = Some st) vs path"
  by (induction vs arbitrary: path) (auto simp: FindVertex_def split: option.splits sum.splits)

text \<open>
  Costs that are natural numbers, on a graph small enough that no path without a repeated
  vertex costs \<open>2 ^ 53\<close> or more: no sum is rounded.
\<close>

lemma edge_cost_nat:
  assumes "\<forall>e \<in> set (GetAllEdges g). cost e \<in> \<nat> \<and> cost e \<le> c" "0 \<le> c"
  shows "edge_cost g u w \<in> \<nat> \<and> edge_cost g u w \<le> c"
proof (cases "map_of g u")
  case None
  then show ?thesis using assms(2) by (simp add: edge_cost_def)
next
  case (Some v)
  show ?thesis
  proof (cases "find (\<lambda>e. dst e = w) (edges_to v)")
    case None
    with Some show ?thesis using assms(2) by (simp add: edge_cost_def)
  next
    case (Some e)
    then have "e \<in> set (edges_to v)"
      by (auto simp: find_Some_iff)
    moreover have "(u, v) \<in> set g"
      using \<open>map_of g u = Some v\<close> by (rule map_of_SomeD)
    ultimately have "e \<in> set (GetAllEdges g)"
      by (auto simp: GetAllEdges_def)
    with assms Some \<open>map_of g u = Some v\<close> show ?thesis
      by (simp add: edge_cost_def)
  qed
qed

lemma path_cost_nat:
  assumes "\<forall>e \<in> set (GetAllEdges g). cost e \<in> \<nat> \<and> cost e \<le> c" "0 \<le> c"
  shows "path_cost g p \<in> \<nat> \<and> path_cost g p \<le> c * real (length p)"
  using assms
proof (induction g p rule: path_cost.induct)
  case (1 g u w p)
  from edge_cost_nat [OF 1(2,3), of u w] 1 show ?case
    by (simp add: Nats_add algebra_simps)
qed simp_all

lemma distinct_path_length:
  assumes "is_path g p" "graph_ok g" "distinct p"
  shows "length p \<le> length g"
proof -
  from is_path_dom [OF assms(1,2)] have "set p \<subseteq> fst ` set g"
    by (auto simp: map_of_eq_None_iff)
  then have "card (set p) \<le> card (fst ` set g)"
    by (intro card_mono) simp_all
  also have "\<dots> \<le> card (set g)" by (intro card_image_le) simp
  also have "\<dots> \<le> length g" by (rule card_length)
  finally show ?thesis using assms(3) by (simp add: distinct_card)
qed

lemma representable_nat:
  assumes "x \<in> \<nat>" "x < 2 ^ 53"
  shows "representable x"
proof -
  from assms(1) obtain n where n: "x = real n" by (rule Nats_cases)
  with assms(2) have "n < 2 ^ 53"
    by (metis of_nat_less_iff of_nat_numeral of_nat_power)
  then have "\<bar>int n\<bar> < 2 ^ 53"
    by (metis abs_of_nat of_nat_less_iff of_nat_numeral of_nat_power)
  from rnd_of_int [OF this] have "rnd x = x"
    by (simp add: n)
  moreover have "\<bar>x\<bar> < 2 ^ 1024"
  proof -
    have "\<bar>x\<bar> < 2 ^ 53" using assms(2) n by simp
    also have "(2::real) ^ 53 \<le> 2 ^ 1024" by (intro power_increasing) simp_all
    finally show ?thesis .
  qed
  ultimately show ?thesis by (simp add: representable_def)
qed

lemma exact_sums_nat:
  assumes ok: "graph_ok g"
    and c: "\<forall>e \<in> set (GetAllEdges g). cost e \<in> \<nat> \<and> cost e \<le> c" "0 \<le> c"
    and b: "c * real (length g) < 2 ^ 53"
  shows "exact_sums g (\<lambda>a b. 0) start goal"
  unfolding exact_sums_def hval_zero
proof (intro allI impI, elim conjE)
  fix p assume p: "is_path g p" "hd p = start" "distinct p"
  from path_cost_nat [OF c, of p] have n: "path_cost g p \<in> \<nat>"
    "path_cost g p \<le> c * real (length p)"
    by simp_all
  have "c * real (length p) \<le> c * real (length g)"
    using distinct_path_length [OF p(1) ok p(3)] c(2) by (intro mult_left_mono) simp_all
  with n(2) b have "path_cost g p < 2 ^ 53" by linarith
  with n(1) have "representable (path_cost g p)" by (rule representable_nat)
  then show "representable (path_cost g p) \<and> representable (path_cost g p + 0)"
    by simp
qed

lemma scenario_exact: "exact_sums scenario (\<lambda>a b. 0) 1 5"
proof (rule exact_sums_nat [OF scenario_ok, of 5])
  show "\<forall>e \<in> set (GetAllEdges scenario). cost e \<in> \<nat> \<and> cost e \<le> 5"
    by (simp add: scenario_def graph_eval GetAllEdges_def)
  show "5 * real (length scenario) < 2 ^ 53"
    by (simp add: scenario_def graph_eval)
qed simp

text \<open>The search on the graph with a rounded sum.\<close>

lemmas search_eval = while_option_unfold search_cond_def search_step_def get_one
  least_entries_def relax_def reach_def mark_checked_def put_def search_init_def dadd_eval

lemma rounding_search:
  "Search tb rounding_graph 1 4 (\<lambda>a b. 0) = Some (Inr [1, 2, 3, 4])"
  unfolding Search_def PerformSearch_def search_loop_def FindVertex_def
  apply (simp add: rounding_graph_def graph_eval)
  apply (simp add: search_eval rnd_examples)
  apply (simp add: finish_def ReconstructPath_def while_option_unfold reconstruct_step_def)
  done

lemma rounding_props:
  "graph_ok rounding_graph"
  "list_all (\<lambda>e. 0 \<le> cost e \<and> representable (cost e)) (GetAllEdges rounding_graph)"
  "is_path rounding_graph [1, 2, 3, 4]" "is_path rounding_graph [1, 5, 4]"
  "path_cost rounding_graph [1, 2, 3, 4] = 2 ^ 54 + 4"
  "path_cost rounding_graph [1, 5, 4] = 2 ^ 54 + 3"
  by (simp_all add: rounding_graph_def graph_eval graph_ok_def GetAllEdges_def has_edge_def
      edge_cost_def representable_def rnd_numeral rnd_examples)

text \<open>
  C3: on a well-formed graph \<open>Search\<close> always returns a path and no error, and the
  path is empty exactly when the start identity is absent, the goal identity is absent,
  or the goal is not reachable from the start.
\<close>

theorem Search_empty_iff:
  assumes "graph_ok g"
  shows "\<exists>path. Search tb g start goal h = Some (Inr path) \<and>
     (path = [] \<longleftrightarrow>
        FindVertex g start = None \<or> FindVertex g goal = None \<or> \<not> reachable g start goal)"
proof (cases "FindVertex g start \<noteq> None \<and> FindVertex g goal \<noteq> None")
  case True
  then have st: "FindVertex g start \<noteq> None" and gl: "FindVertex g goal \<noteq> None"
    by simp_all
  from Search_result [OF assms st gl, of tb h] show ?thesis
  proof
    assume "\<not> reachable g start goal \<and> Search tb g start goal h = Some (Inr [])"
    then show ?thesis by simp
  next
    assume "\<exists>path vs. Search tb g start goal h = Some (Inr path) \<and> path \<noteq> [] \<and>
        path_states g vs = Inr path \<and> is_path g vs \<and> hd vs = start \<and> last vs = goal \<and>
        (consistent g h goal \<and> exact_sums g h start goal \<longrightarrow>
           (\<forall>q. is_path g q \<and> hd q = start \<and> last q = goal \<longrightarrow>
                path_cost g vs \<le> path_cost g q))"
    then obtain path vs where r: "Search tb g start goal h = Some (Inr path)" "path \<noteq> []"
      "is_path g vs" "hd vs = start" "last vs = goal"
      by blast
    then have "reachable g start goal" by (auto simp: reachable_def)
    with r st gl show ?thesis by simp
  qed
next
  case False
  then have "Search tb g start goal h = Some (Inr [])"
    by (auto simp: Search_def Let_def FindVertex_def map_of_ResetAllVertices)
  with False show ?thesis by auto
qed

theorem Search_empty_iff_witness:
  "graph_ok scenario \<and> reachable scenario 1 5 \<and>
   (\<exists>path. Search (\<lambda>q. hd q) scenario 1 5 (\<lambda>a b. 0) = Some (Inr path) \<and> path \<noteq> [])"
proof -
  have f: "FindVertex scenario 1 \<noteq> None" "FindVertex scenario 5 \<noteq> None"
    by (simp_all add: scenario_def graph_eval FindVertex_def)
  from Search_empty_iff [OF scenario_ok, of "\<lambda>q. hd q" 1 5 "\<lambda>a b. 0"]
  obtain path where "Search (\<lambda>q. hd q) scenario 1 5 (\<lambda>a b. 0) = Some (Inr path)"
    "path = [] \<longleftrightarrow>
       FindVertex scenario 1 = None \<or> FindVertex scenario 5 = None \<or> \<not> reachable scenario 1 5"
    by blast
  with f scenario_reachable scenario_ok show ?thesis
    by auto
qed

text \<open>
  C1 (as amended): on a well-formed graph with non-negative edge costs, for a heuristic
  that is consistent and admissible for the goal and a goal reachable from the start,
  when no sum that the search forms is rounded (\<open>exact_sums\<close>), \<open>Search\<close> returns
  the states of the vertices of a path from start to goal whose cost is no more than the
  cost of any path from start to goal. (The proof needs the consistency of the heuristic
  only.)
\<close>

theorem Search_optimal:
  assumes ok: "graph_ok g"
    and nonneg: "\<forall>e \<in> set (GetAllEdges g). 0 \<le> cost e"
    and cons: "consistent g h goal" and adm: "admissible g h goal"
    and reach: "reachable g start goal"
    and ex: "exact_sums g h start goal"
  shows "\<exists>path vs. Search tb g start goal h = Some (Inr path) \<and>
     list_all2 (\<lambda>k st. map_option state (FindVertex g k) = Some st) vs path \<and>
     is_path g vs \<and> hd vs = start \<and> last vs = goal \<and>
     (\<forall>q. is_path g q \<and> hd q = start \<and> last q = goal \<longrightarrow> path_cost g vs \<le> path_cost g q)"
proof -
  from reach obtain p where "is_path g p" "hd p = start" "last p = goal"
    by (auto simp: reachable_def)
  then have st: "FindVertex g start \<noteq> None" and gl: "FindVertex g goal \<noteq> None"
    using is_path_hd [of g p] is_path_last [of g p] by (simp_all add: FindVertex_def)
  from Search_result [OF ok st gl, of tb h] reach cons ex obtain path vs where
    r: "Search tb g start goal h = Some (Inr path)" "path_states g vs = Inr path"
      "is_path g vs" "hd vs = start" "last vs = goal"
      "\<forall>q. is_path g q \<and> hd q = start \<and> last q = goal \<longrightarrow> path_cost g vs \<le> path_cost g q"
    by blast
  from path_states_states [OF r(2)] r show ?thesis
    by blast
qed

theorem Search_optimal_witness:
  "graph_ok scenario \<and> consistent scenario (\<lambda>a b. 0) 5 \<and> admissible scenario (\<lambda>a b. 0) 5 \<and>
   reachable scenario 1 5 \<and> exact_sums scenario (\<lambda>a b. 0) 1 5 \<and>
   (\<exists>path vs. Search (\<lambda>q. hd q) scenario 1 5 (\<lambda>a b. 0) = Some (Inr path) \<and>
      list_all2 (\<lambda>k st. map_option state (FindVertex scenario k) = Some st) vs path \<and>
      hd vs = 1 \<and> last vs = 5 \<and>
      path_cost scenario vs \<le> path_cost scenario [1, 3, 4, 5])"
proof -
  note c = zero_consistent [OF scenario_nonneg, of 5]
  note a = zero_admissible [OF scenario_nonneg, of 5]
  have p: "is_path scenario [1, 3, 4, 5]"
    by (simp add: scenario_def graph_eval has_edge_def)
  from Search_optimal [OF scenario_ok scenario_nonneg c a scenario_reachable scenario_exact,
      of "\<lambda>q. hd q"]
  obtain path vs where r: "Search (\<lambda>q. hd q) scenario 1 5 (\<lambda>a b. 0) = Some (Inr path)"
    "list_all2 (\<lambda>k st. map_option state (FindVertex scenario k) = Some st) vs path"
    "hd vs = 1" "last vs = 5"
    and o: "\<forall>q. is_path scenario q \<and> hd q = 1 \<and> last q = 5 \<longrightarrow>
       path_cost scenario vs \<le> path_cost scenario q"
    by blast
  have "is_path scenario [1, 3, 4, 5] \<and> hd [1, 3, 4, 5 :: int] = 1 \<and>
      last [1, 3, 4, 5 :: int] = 5"
    using p by simp
  with o have "path_cost scenario vs \<le> path_cost scenario [1, 3, 4, 5]"
    by blast
  with r scenario_ok c a scenario_reachable scenario_exact show ?thesis
    by blast
qed

text \<open>
  C1 as the claim states it fails where a sum is rounded: all costs of \<open>rounding_graph\<close>
  are non-negative doubles and the heuristic is zero, \<open>Search\<close> returns the path
  1, 2, 3, 4 of cost \<open>2 ^ 54 + 4\<close>, and the path 1, 5, 4 costs \<open>2 ^ 54 + 3\<close>. (The
  g-cost the search computes along 1, 2, 3, 4 is \<open>2 ^ 54\<close>, along 1, 5, 4 it is
  \<open>2 ^ 54 + 4\<close>.)
\<close>

theorem Search_optimal_counterexample:
  "graph_ok rounding_graph \<and>
   list_all (\<lambda>e. 0 \<le> cost e \<and> representable (cost e)) (GetAllEdges rounding_graph) \<and>
   consistent rounding_graph (\<lambda>a b. 0) 4 \<and> admissible rounding_graph (\<lambda>a b. 0) 4 \<and>
   reachable rounding_graph 1 4 \<and>
   Search (\<lambda>q. hd q) rounding_graph 1 4 (\<lambda>a b. 0) = Some (Inr [1, 2, 3, 4]) \<and>
   list_all2 (\<lambda>k st. map_option state (FindVertex rounding_graph k) = Some st)
     [1, 2, 3, 4] [1, 2, 3, 4] \<and>
   is_path rounding_graph [1, 2, 3, 4] \<and> is_path rounding_graph [1, 5, 4] \<and>
   path_cost rounding_graph [1, 5, 4] < path_cost rounding_graph [1, 2, 3, 4]"
proof -
  have n: "\<forall>e \<in> set (GetAllEdges rounding_graph). 0 \<le> cost e"
    using rounding_props(2) by (simp add: list_all_iff)
  note c = zero_consistent [OF n, of 4]
  note a = zero_admissible [OF n, of 4]
  have r: "reachable rounding_graph 1 4"
    unfolding reachable_def using rounding_props(4) by (intro exI [of _ "[1, 5, 4]"]) simp
  have s: "list_all2 (\<lambda>k st. map_option state (FindVertex rounding_graph k) = Some st)
     [1, 2, 3, 4] [1, 2, 3, 4]"
    by (simp add: rounding_graph_def graph_eval FindVertex_def)
  have l: "path_cost rounding_graph [1, 5, 4] < path_cost rounding_graph [1, 2, 3, 4]"
    unfolding rounding_props(5,6) by simp
  from rounding_props(1,2) c a r rounding_search [of "\<lambda>q. hd q"] s rounding_props(3,4) l
  show ?thesis by blast
qed

text \<open>
  C9: when start and goal both resolve to the vertex \<open>v\<close>, \<open>Search\<close> returns the
  one-element path of \<open>v\<close>'s state: the first iteration pops the goal, and the
  reconstruction from the goal stops at once at the start.
\<close>

theorem Search_same_vertex:
  assumes "FindVertex g v = Some x"
  shows "Search tb g v v h = Some (Inr [state x])"
  using assms by (rule Search_same_aux)

theorem Search_same_vertex_witness:
  "FindVertex scenario 3 \<noteq> None \<and>
   Search (\<lambda>q. hd q) scenario 3 3 (\<lambda>a b. 0) = Some (Inr [3])"
proof -
  have "\<exists>x. FindVertex scenario 3 = Some x \<and> state x = 3"
    by (simp add: scenario_def FindVertex_def AddEdge_def AddVertex_def
        ObtainVertexFromVertexMap_def new_Vertex_def)
  then obtain x where f: "FindVertex scenario 3 = Some x" and x: "state x = 3"
    by blast
  from Search_same_vertex [OF f, of "\<lambda>q. hd q" "\<lambda>a b. 0"] f x show ?thesis
    by simp
qed

section \<open>The concrete scenario\<close>

text \<open>
  C4: on the graph with vertices 1..5 and edges (1,2,1), (2,3,1), (1,3,5), (3,4,1),
  (4,5,1), with the zero heuristic, \<open>Search(1,5)\<close> returns the path [1,2,3,4,5], and
  the g-cost of the goal vertex after the search is 4. This holds for every tie-break
  of the open list.
\<close>

theorem Search_scenario:
  "Search tb scenario 1 5 (\<lambda>a b. 0) = Some (Inr [1, 2, 3, 4, 5]) \<and>
   map_option (\<lambda>s. map_option g_cost (FindVertex (graph s) 5))
     (search_loop tb (ResetAllVertices scenario) 1 5 (\<lambda>a b. 0)) = Some (Some 4)"
  unfolding Search_def PerformSearch_def search_loop_def FindVertex_def
  apply (simp add: scenario_def graph_eval)
  apply (simp add: search_eval)
  apply (simp add: finish_def ReconstructPath_def while_option_unfold reconstruct_step_def)
  done

theorem Search_scenario_witness:
  "Search (\<lambda>q. hd q) scenario 1 5 (\<lambda>a b. 0) = Some (Inr [1, 2, 3, 4, 5]) \<and>
   map_option (\<lambda>s. map_option g_cost (FindVertex (graph s) 5))
     (search_loop (\<lambda>q. hd q) (ResetAllVertices scenario) 1 5 (\<lambda>a b. 0)) = Some (Some 4)"
  by (rule Search_scenario)

section \<open>The edges that IncSearch adds\<close>


lemma AddEdge_other:
  assumes "map_of g k = Some v"
  shows "\<exists>v'. map_of (AddEdge idx a b c g) k = Some v' \<and> search_fields v' = search_fields v \<and>
     state v' = state v \<and> (k \<noteq> idx a \<longrightarrow> edges_to v' = edges_to v)"
proof -
  let ?g2 = "snd (ObtainVertexFromVertexMap idx b (snd (ObtainVertexFromVertexMap idx a g)))"
  have k: "map_of ?g2 k = Some v"
    using assms by (simp add: map_of_Obtain)
  show ?thesis
    by (cases rule: AddEdge_cases [of idx b a g c])
      (use k in \<open>auto simp: map_of_map_entry search_fields_def\<close>)
qed



lemma AddEdge_keeps: "map_of g k \<noteq> None \<Longrightarrow> map_of (AddEdge idx a b c g) k \<noteq> None"
  using AddEdge_other [of g k _ idx a b c] by auto








section \<open>The corresponding state of Search\<close>












section \<open>Relaxing an edge in both searches\<close>








section \<open>Expanding a vertex in IncSearch\<close>

lemma relax_opn: "opn s k \<Longrightarrow> opn (relax h goal cur e s) k"
  by (cases rule: relax_cases [of s cur e goal h]) (simp_all add: views_reach)




section \<open>One iteration of IncSearch and of Search\<close>

lemma sim_simps [simp]:
  "openlist (sim start G0 s) = openlist s" "found_path (sim start G0 s) = found_path s"
  "invalid (sim start G0 s) = invalid s" "graph (sim start G0 s) = overlay start G0 (graph s)"
  by (simp_all add: sim_def)








section \<open>IncSearch and Search return the same\<close>




















end
